theory Spec2Isabelle
  imports Main "HOL-Library.Extended_Nat" "HOL-Library.AList"
begin

section \<open>The scheduler (packages/runtime-core/src/scheduler.ts)\<close>

subsection \<open>Jobs and the scheduler's state\<close>

text \<open>
  A \<^verbatim>\<open>SchedulerJob\<close> is a function object with optional fields. The queue holds
  references to jobs and compares them by identity (\<^verbatim>\<open>includes\<close>, \<^verbatim>\<open>indexOf\<close>), so
  a job in a queue is a reference \<open>jobref\<close> and the fields live in a store \<open>jobs\<close>.
  \<^verbatim>\<open>id\<close> is \<open>None\<close> when it is null or undefined; \<^verbatim>\<open>active\<close> is \<open>None\<close> when it is
  undefined (only \<^verbatim>\<open>active === false\<close> disables a job); \<^verbatim>\<open>i\<close> is the owning
  component instance, here the component name that \<^verbatim>\<open>getComponentName\<close> finds for it.
\<close>

type_synonym jobref = nat

type_synonym componentInstance = "string option"

record job =
  job_id :: "int option"
  job_pre :: bool
  job_active :: "bool option"
  job_allowRecurse :: bool
  job_i :: "componentInstance option"

datatype ErrorCodes = SCHEDULER | COMPONENT_UPDATE | APP_ERROR_HANDLER

datatype message = MaxRecursiveUpdates "string option"

text \<open>
  The module's variables. \<open>currentFlushPromise\<close> is true when the promise of a
  scheduled \<^verbatim>\<open>flushJobs\<close> is stored. Two logs record what the runtime is asked to do:
  \<open>invoked\<close>, the jobs called, in order, and \<open>errors\<close>, the errors handed to
  \<^verbatim>\<open>handleError\<close>.
\<close>

record sched =
  isFlushing :: bool
  isFlushPending :: bool
  queue :: "jobref list"
  flushIndex :: nat
  pendingPostFlushCbs :: "jobref list"
  activePostFlushCbs :: "jobref list option"
  postFlushIndex :: nat
  currentFlushPromise :: bool
  jobs :: "jobref \<Rightarrow> job"
  invoked :: "jobref list"
  errors :: "(message \<times> ErrorCodes) list"

definition RECURSION_LIMIT :: nat where
  "RECURSION_LIMIT = 100"

type_synonym CountMap = "jobref \<rightharpoonup> nat"

subsection \<open>Numbers: ids, Infinity and NaN\<close>

text \<open>
  \<^verbatim>\<open>getId\<close> gives a job's id, or \<^verbatim>\<open>Infinity\<close> for a job with none. The comparator
  subtracts two such numbers: the difference of two infinities is \<^verbatim>\<open>NaN\<close>.
\<close>

datatype jsnum = Num int | Infinity

datatype jsdiff = Diff int | PosInfinity | NegInfinity | NaN

definition getId :: "job \<Rightarrow> jsnum" where
  "getId jb = (case job_id jb of None \<Rightarrow> Infinity | Some n \<Rightarrow> Num n)"

fun num_less :: "jsnum \<Rightarrow> jsnum \<Rightarrow> bool" where
  "num_less (Num a) (Num b) = (a < b)"
| "num_less (Num a) Infinity = True"
| "num_less Infinity _ = False"

fun num_minus :: "jsnum \<Rightarrow> jsnum \<Rightarrow> jsdiff" where
  "num_minus (Num a) (Num b) = Diff (a - b)"
| "num_minus (Num a) Infinity = NegInfinity"
| "num_minus Infinity (Num b) = PosInfinity"
| "num_minus Infinity Infinity = NaN"

subsection \<open>Arrays\<close>

text \<open>
  \<^verbatim>\<open>arr.includes(x, from)\<close>, \<^verbatim>\<open>arr.indexOf(x)\<close> (\<open>-1\<close> when absent),
  \<^verbatim>\<open>arr.splice(i, 0, x)\<close> and \<^verbatim>\<open>arr.splice(i, 1)\<close>. A start index beyond the length
  is clamped to the length by \<^verbatim>\<open>splice\<close>, as \<open>take\<close> and \<open>drop\<close> do.
\<close>

definition array_includes :: "'a list \<Rightarrow> 'a \<Rightarrow> nat \<Rightarrow> bool" where
  "array_includes arr x fromIndex = (x \<in> set (drop fromIndex arr))"

fun indexOf :: "'a list \<Rightarrow> 'a \<Rightarrow> int" where
  "indexOf [] x = -1"
| "indexOf (y # ys) x =
     (if y = x then 0 else (let r = indexOf ys x in if r < 0 then -1 else r + 1))"

definition splice_insert :: "'a list \<Rightarrow> nat \<Rightarrow> 'a \<Rightarrow> 'a list" where
  "splice_insert arr n x = take n arr @ [x] @ drop n arr"

definition splice_remove :: "'a list \<Rightarrow> nat \<Rightarrow> 'a list" where
  "splice_remove arr n = take n arr @ drop (Suc n) arr"

subsection \<open>findInsertionIndex, queueJob, queueFlush, invalidateJob\<close>

text \<open>
  The binary search of \<^verbatim>\<open>findInsertionIndex\<close>, between \<open>start\<close> and \<open>end\<close>.
  \<^verbatim>\<open>(start + end) >>> 1\<close> is the half of the sum, rounded down (the sum of two array
  indices is below \<open>2^32\<close>). The search is entered with \<open>end = queue.length\<close>, so
  \<open>middle < end\<close> is an index of the queue.
\<close>

function findInsertionIndex_loop :: "sched \<Rightarrow> int \<Rightarrow> nat \<Rightarrow> nat \<Rightarrow> nat" where
  "findInsertionIndex_loop s ident start end' =
     (if start < end' then
        (let middle = (start + end') div 2;
             middleJob = jobs s (queue s ! middle);
             middleJobId = getId middleJob
         in if num_less middleJobId (Num ident) \<or> (middleJobId = Num ident \<and> job_pre middleJob)
            then findInsertionIndex_loop s ident (middle + 1) end'
            else findInsertionIndex_loop s ident start middle)
      else start)"
  by pat_completeness auto
termination
  by (relation "measure (\<lambda>(s, ident, start, end'). end' - start)") auto

declare findInsertionIndex_loop.simps [simp del]

definition findInsertionIndex :: "sched \<Rightarrow> int \<Rightarrow> nat" where
  "findInsertionIndex s ident = findInsertionIndex_loop s ident (flushIndex s + 1) (length (queue s))"

text \<open>
  \<^verbatim>\<open>queueFlush\<close> schedules \<^verbatim>\<open>flushJobs\<close> on the next microtask, unless a flush is
  running or already scheduled.
\<close>

definition queueFlush :: "sched \<Rightarrow> sched" where
  "queueFlush s =
     (if \<not> isFlushing s \<and> \<not> isFlushPending s
      then s\<lparr>isFlushPending := True, currentFlushPromise := True\<rparr>
      else s)"

definition queueJob :: "jobref \<Rightarrow> sched \<Rightarrow> sched" where
  "queueJob jb s =
     (if queue s = [] \<or>
         \<not> array_includes (queue s) jb
             (if isFlushing s \<and> job_allowRecurse (jobs s jb) then flushIndex s + 1 else flushIndex s)
      then queueFlush
            (case job_id (jobs s jb) of
               None \<Rightarrow> s\<lparr>queue := queue s @ [jb]\<rparr>
             | Some ident \<Rightarrow> s\<lparr>queue := splice_insert (queue s) (findInsertionIndex s ident) jb\<rparr>)
      else s)"

definition invalidateJob :: "jobref \<Rightarrow> sched \<Rightarrow> sched" where
  "invalidateJob jb s =
     (let i = indexOf (queue s) jb
      in if i > int (flushIndex s) then s\<lparr>queue := splice_remove (queue s) (nat i)\<rparr> else s)"

subsection \<open>Sorting the queue\<close>

text \<open>
  The comparator of \<^verbatim>\<open>flushJobs\<close>. Only a difference that is exactly \<open>0\<close> reaches the
  test of the \<^verbatim>\<open>pre\<close> flags.
\<close>

definition comparator :: "job \<Rightarrow> job \<Rightarrow> jsdiff" where
  "comparator a b =
     (let diff = num_minus (getId a) (getId b)
      in if diff = Diff 0 then
           (if job_pre a \<and> \<not> job_pre b then Diff (-1)
            else if job_pre b \<and> \<not> job_pre a then Diff 1
            else diff)
         else diff)"

text \<open>
  \<^verbatim>\<open>Array.prototype.sort\<close> with a comparator: \<open>a\<close> goes after \<open>b\<close> only when the
  comparator's result is positive; \<^verbatim>\<open>NaN\<close> counts as \<open>0\<close>, and the sort is stable. For
  a consistent comparator this fixes the result, which is the one of a stable insertion
  sort.
\<close>

fun positive :: "jsdiff \<Rightarrow> bool" where
  "positive (Diff d) = (d > 0)"
| "positive PosInfinity = True"
| "positive NegInfinity = False"
| "positive NaN = False"

fun sort_insert :: "('a \<Rightarrow> 'a \<Rightarrow> jsdiff) \<Rightarrow> 'a \<Rightarrow> 'a list \<Rightarrow> 'a list" where
  "sort_insert cmp x [] = [x]"
| "sort_insert cmp x (y # ys) =
     (if positive (cmp x y) then y # sort_insert cmp x ys else x # y # ys)"

fun array_sort :: "('a \<Rightarrow> 'a \<Rightarrow> jsdiff) \<Rightarrow> 'a list \<Rightarrow> 'a list" where
  "array_sort cmp [] = []"
| "array_sort cmp (x # xs) = sort_insert cmp x (array_sort cmp xs)"

subsection \<open>checkRecursiveUpdates\<close>

text \<open>
  Modelled from the spec: \<^verbatim>\<open>handleError\<close> (errorHandling.ts) forwards the error to a
  handler and does not abort the flush; here it appends the error to \<open>errors\<close>.
\<close>

definition handleError :: "message \<Rightarrow> ErrorCodes \<Rightarrow> sched \<Rightarrow> sched" where
  "handleError err code s = s\<lparr>errors := errors s @ [(err, code)]\<rparr>"

text \<open>
  The result is the returned flag (\<^verbatim>\<open>true\<close>, or \<^verbatim>\<open>undefined\<close> as \<open>False\<close>), the
  map \<open>seen\<close> after the call and the state.
\<close>

definition checkRecursiveUpdates :: "CountMap \<Rightarrow> jobref \<Rightarrow> sched \<Rightarrow> bool \<times> CountMap \<times> sched" where
  "checkRecursiveUpdates seen fn s =
     (case seen fn of
        None \<Rightarrow> (False, seen(fn \<mapsto> 1), s)
      | Some count \<Rightarrow>
          if count > RECURSION_LIMIT then
            (let componentName = (case job_i (jobs s fn) of None \<Rightarrow> None | Some inst \<Rightarrow> inst)
             in (True, seen, handleError (MaxRecursiveUpdates componentName) APP_ERROR_HANDLER s))
          else (False, seen(fn \<mapsto> count + 1), s))"

subsection \<open>flushPostFlushCbs and flushJobs\<close>

text \<open>
  What a job does when it is called is a parameter \<open>body\<close>: a function of the
  scheduler's state (a job may queue or invalidate jobs).

  Modelled from the spec: \<^verbatim>\<open>callWithErrorHandling\<close> (errorHandling.ts) calls the job and
  forwards what it throws to the error handler; the flush goes on.
\<close>

definition call_job :: "(jobref \<Rightarrow> sched \<Rightarrow> sched) \<Rightarrow> jobref \<Rightarrow> sched \<Rightarrow> sched" where
  "call_job body jb s = body jb (s\<lparr>invoked := invoked s @ [jb]\<rparr>)"

definition callWithErrorHandling :: "(jobref \<Rightarrow> sched \<Rightarrow> sched) \<Rightarrow> jobref \<Rightarrow> sched \<Rightarrow> sched" where
  "callWithErrorHandling body jb s = call_job body jb s"

text \<open>\<^verbatim>\<open>[...new Set(arr)]\<close>: the first occurrence of each element, in order.\<close>

fun dedupe :: "'a list \<Rightarrow> 'a list \<Rightarrow> 'a list" where
  "dedupe acc [] = rev acc"
| "dedupe acc (x # xs) = (if x \<in> set acc then dedupe acc xs else dedupe (x # acc) xs)"

text \<open>
  One turn of the loop of \<^verbatim>\<open>flushPostFlushCbs\<close> on the callback \<open>cb\<close> at
  \<open>postFlushIndex\<close>; \<open>dev\<close> is the build flag \<^verbatim>\<open>__DEV__\<close>.
\<close>

definition postFlush_iter ::
  "bool \<Rightarrow> (jobref \<Rightarrow> sched \<Rightarrow> sched) \<Rightarrow> jobref \<Rightarrow> CountMap \<times> sched \<Rightarrow> CountMap \<times> sched" where
  "postFlush_iter dev body cb st =
     (let (seen, s) = st;
          (skip, seen1, s1) = (if dev then checkRecursiveUpdates seen cb s else (False, seen, s))
      in if skip then (seen1, s1)
         else if job_active (jobs s1 cb) \<noteq> Some False then (seen1, call_job body cb s1)
         else (seen1, s1))"

text \<open>
  The loops run while jobs keep adding entries, so they take fuel: \<open>None\<close> is a loop
  that has not ended within the fuel.
\<close>

fun postFlush_loop ::
  "bool \<Rightarrow> (jobref \<Rightarrow> sched \<Rightarrow> sched) \<Rightarrow> nat \<Rightarrow> CountMap \<times> sched \<Rightarrow> (CountMap \<times> sched) option" where
  "postFlush_loop dev body 0 st = None"
| "postFlush_loop dev body (Suc n) st =
     (let s = snd st in
      case activePostFlushCbs s of
        None \<Rightarrow> Some st
      | Some cbs \<Rightarrow>
          if postFlushIndex s < length cbs then
            (let (seen1, s1) = postFlush_iter dev body (cbs ! postFlushIndex s) st
             in postFlush_loop dev body n (seen1, s1\<lparr>postFlushIndex := postFlushIndex s1 + 1\<rparr>))
          else Some st)"

definition flushPostFlushCbs ::
  "bool \<Rightarrow> (jobref \<Rightarrow> sched \<Rightarrow> sched) \<Rightarrow> nat \<Rightarrow> CountMap \<times> sched \<Rightarrow> (CountMap \<times> sched) option" where
  "flushPostFlushCbs dev body n st =
     (let (seen, s) = st in
      if pendingPostFlushCbs s \<noteq> [] then
        (let deduped = array_sort (\<lambda>a b. num_minus (getId (jobs s a)) (getId (jobs s b)))
                         (dedupe [] (pendingPostFlushCbs s));
             s1 = s\<lparr>pendingPostFlushCbs := []\<rparr>
         in case activePostFlushCbs s1 of
              Some cbs \<Rightarrow> Some (seen, s1\<lparr>activePostFlushCbs := Some (cbs @ deduped)\<rparr>)
            | None \<Rightarrow>
                (case postFlush_loop dev body n
                        (seen, s1\<lparr>activePostFlushCbs := Some deduped, postFlushIndex := 0\<rparr>) of
                   None \<Rightarrow> None
                 | Some (seen2, s2) \<Rightarrow>
                     Some (seen2, s2\<lparr>activePostFlushCbs := None, postFlushIndex := 0\<rparr>)))
      else Some st)"

text \<open>One turn of the loop of \<^verbatim>\<open>flushJobs\<close>, on the job at \<open>flushIndex\<close>.\<close>

definition flushJobs_iter ::
  "bool \<Rightarrow> (jobref \<Rightarrow> sched \<Rightarrow> sched) \<Rightarrow> CountMap \<times> sched \<Rightarrow> CountMap \<times> sched" where
  "flushJobs_iter dev body st =
     (let (seen, s) = st;
          jb = queue s ! flushIndex s
      in if job_active (jobs s jb) \<noteq> Some False then
           (let (skip, seen1, s1) =
                  (if dev then checkRecursiveUpdates seen jb s else (False, seen, s))
            in if skip then (seen1, s1)
               else (seen1, callWithErrorHandling body jb s1))
         else (seen, s))"

fun flushJobs_loop ::
  "bool \<Rightarrow> (jobref \<Rightarrow> sched \<Rightarrow> sched) \<Rightarrow> nat \<Rightarrow> CountMap \<times> sched \<Rightarrow> (CountMap \<times> sched) option" where
  "flushJobs_loop dev body 0 st = None"
| "flushJobs_loop dev body (Suc n) st =
     (if flushIndex (snd st) < length (queue (snd st)) then
        (let (seen1, s1) = flushJobs_iter dev body st
         in flushJobs_loop dev body n (seen1, s1\<lparr>flushIndex := flushIndex s1 + 1\<rparr>))
      else Some st)"

fun flushJobs ::
  "bool \<Rightarrow> (jobref \<Rightarrow> sched \<Rightarrow> sched) \<Rightarrow> nat \<Rightarrow> CountMap \<times> sched \<Rightarrow> (CountMap \<times> sched) option" where
  "flushJobs dev body 0 st = None"
| "flushJobs dev body (Suc n) st =
     (let (seen, s) = st;
          s1 = s\<lparr>isFlushPending := False, isFlushing := True\<rparr>;
          s2 = s1\<lparr>queue := array_sort (\<lambda>a b. comparator (jobs s1 a) (jobs s1 b)) (queue s1)\<rparr>
      in case flushJobs_loop dev body n (seen, s2\<lparr>flushIndex := 0\<rparr>) of
           None \<Rightarrow> None
         | Some (seen3, s3) \<Rightarrow>
             (case flushPostFlushCbs dev body n (seen3, s3\<lparr>flushIndex := 0, queue := []\<rparr>) of
                None \<Rightarrow> None
              | Some (seen4, s4) \<Rightarrow>
                  (let s5 = s4\<lparr>isFlushing := False, currentFlushPromise := False\<rparr>
                   in if queue s5 \<noteq> [] \<or> pendingPostFlushCbs s5 \<noteq> []
                      then flushJobs dev body n (seen4, s5)
                      else Some (seen4, s5))))"

section \<open>Deep traversal (traverse, packages/runtime-core/src/apiWatch.ts)\<close>

text \<open>
  Values are primitives (whatever \<^verbatim>\<open>isObject\<close> refuses: numbers, strings, functions,
  null, undefined) or references to objects of a heap. An object is of one of the kinds
  that \<^verbatim>\<open>traverse\<close> tells apart, in the order of its tests: a ref (\<^verbatim>\<open>isRef\<close>, with its
  \<^verbatim>\<open>value\<close>), an array (its elements), a set (its members), a map (its entries: keys
  and values), a plain object (the values of the keys that \<^verbatim>\<open>for ... in\<close> visits, and
  the own symbol keys, each with its enumerable flag and value), or any other object.
  \<open>skip\<close> is the marker \<^verbatim>\<open>ReactiveFlags.SKIP\<close>. The heap is a list of objects, and a
  reference is an index of it, so that a heap holds finitely many objects, which may
  refer to each other in cycles.
\<close>

type_synonym addr = nat

datatype jsvalue = Prim | Obj addr

datatype shape =
    RefObj jsvalue
  | ArrayObj "jsvalue list"
  | SetObj "jsvalue list"
  | MapObj "(jsvalue \<times> jsvalue) list"
  | PlainObj "jsvalue list" "(bool \<times> jsvalue) list"
  | OtherObj

record object =
  skip :: bool
  shape :: shape

type_synonym heap = "object list"

fun isObject :: "heap \<Rightarrow> jsvalue \<Rightarrow> bool" where
  "isObject h Prim = False"
| "isObject h (Obj a) = (a < length h)"

fun has_skip :: "heap \<Rightarrow> jsvalue \<Rightarrow> bool" where
  "has_skip h Prim = False"
| "has_skip h (Obj a) = (a < length h \<and> skip (h ! a))"

fun addr_of :: "jsvalue \<Rightarrow> addr" where
  "addr_of Prim = 0"
| "addr_of (Obj a) = a"


text \<open>
  \<open>depth\<close> is a number or \<^verbatim>\<open>Infinity\<close> (the default), an \<open>enat\<close>: \<open>\<infinity> - 1 = \<infinity>\<close>.
  \<open>seen\<close> is a \<^verbatim>\<open>Set\<close>, which keeps the order of insertion: the list of its members,
  in that order (the caller passes \<open>[]\<close> for a missing argument). The function returns
  \<open>value\<close>; the model returns \<open>seen\<close>, which the function changes in place, beside it.
  \<open>traverse_each\<close> is the loop over the values of an array, a set, a map or an object.
\<close>

function traverse :: "heap \<Rightarrow> jsvalue \<Rightarrow> enat \<Rightarrow> addr list \<Rightarrow> jsvalue \<times> addr list"
  and traverse_each :: "heap \<Rightarrow> jsvalue list \<Rightarrow> enat \<Rightarrow> addr list \<Rightarrow> addr list"
where
  "traverse h v depth seen =
     (if depth \<le> 0 \<or> \<not> isObject h v \<or> has_skip h v then (v, seen)
      else if addr_of v \<in> set seen then (v, seen)
      else
        (v, case shape (h ! addr_of v) of
              RefObj x \<Rightarrow> snd (traverse h x (depth - 1) (seen @ [addr_of v]))
            | ArrayObj xs \<Rightarrow> traverse_each h xs (depth - 1) (seen @ [addr_of v])
            | SetObj xs \<Rightarrow> traverse_each h xs (depth - 1) (seen @ [addr_of v])
            | MapObj kvs \<Rightarrow> traverse_each h (map snd kvs) (depth - 1) (seen @ [addr_of v])
            | PlainObj props syms \<Rightarrow>
                traverse_each h (map snd (filter fst syms)) (depth - 1)
                  (traverse_each h props (depth - 1) (seen @ [addr_of v]))
            | OtherObj \<Rightarrow> seen @ [addr_of v]))"
| "traverse_each h [] depth seen = seen"
| "traverse_each h (x # xs) depth seen = traverse_each h xs depth (snd (traverse h x depth seen))"
  by pat_completeness auto



text \<open>
  Termination. Each call that goes on adds an object of the heap to \<open>seen\<close>, and no
  call removes one: the number of objects of the heap that are not in \<open>seen\<close> goes
  down, and the loops go down their lists.
\<close>

lemma traverse_dom_seen_subset:
  "traverse_traverse_each_dom (Inl (h, v, depth, seen)) \<Longrightarrow>
     set seen \<subseteq> set (snd (traverse h v depth seen))"
  "traverse_traverse_each_dom (Inr (h, vs, depth, seen)) \<Longrightarrow>
     set seen \<subseteq> set (traverse_each h vs depth seen)"
proof (induction h v depth seen and h vs depth seen rule: traverse_traverse_each.pinduct)
  case (1 h v depth seen)
  show ?case
  proof (cases "depth \<le> 0 \<or> \<not> isObject h v \<or> has_skip h v \<or> addr_of v \<in> set seen")
    case True
    then show ?thesis using "1.hyps" by (auto simp: traverse.psimps)
  next
    case False
    then have c: "\<not> (depth \<le> 0 \<or> \<not> isObject h v \<or> has_skip h v)" "addr_of v \<notin> set seen"
      by auto
    show ?thesis
    proof (cases "shape (h ! addr_of v)")
      case (RefObj x)
      with "1.IH"(1) [OF c RefObj] c "1.hyps" show ?thesis
        by (auto simp: traverse.psimps)
    next
      case (ArrayObj xs)
      with "1.IH"(2) [OF c ArrayObj] c "1.hyps" show ?thesis
        by (auto simp: traverse.psimps)
    next
      case (SetObj xs)
      with "1.IH"(3) [OF c SetObj] c "1.hyps" show ?thesis
        by (auto simp: traverse.psimps)
    next
      case (MapObj kvs)
      with "1.IH"(4) [OF c MapObj] c "1.hyps" show ?thesis
        by (auto simp: traverse.psimps)
    next
      case (PlainObj props syms)
      with "1.IH"(5) [OF c PlainObj] "1.IH"(6) [OF c PlainObj] c "1.hyps" show ?thesis
        by (auto simp: traverse.psimps)
    next
      case OtherObj
      with c "1.hyps" show ?thesis
        by (auto simp: traverse.psimps)
    qed
  qed
next
  case (2 h depth seen)
  then show ?case by (simp add: traverse_each.psimps)
next
  case (3 h x xs depth seen)
  then show ?case by (auto simp: traverse_each.psimps)
qed

lemma card_unseen_mono:
  "set seen \<subseteq> set seen' \<Longrightarrow> card ({..<n::nat} - set seen') \<le> card ({..<n} - set seen)"
  by (rule card_mono) auto

lemma card_unseen_less:
  "a < n \<Longrightarrow> a \<notin> set seen \<Longrightarrow> card ({..<n::nat} - set (seen @ [a])) < card ({..<n} - set seen)"
  by (rule psubset_card_mono) auto

lemma card_unseen_object:
  "isObject h v \<Longrightarrow> addr_of v \<notin> set seen \<Longrightarrow>
   card ({..<length h} - set (seen @ [addr_of v])) < card ({..<length h} - set seen)"
  by (cases v) (auto intro: card_unseen_less simp del: set_append)

lemma lex_first:
  "fst (f a) < fst (f b) \<Longrightarrow> (a, b) \<in> inv_image (less_than <*lex*> less_than) f"
  by (cases "f a"; cases "f b") simp

lemma lex_second:
  "fst (f a) \<le> fst (f b) \<Longrightarrow> snd (f a) < snd (f b) \<Longrightarrow>
   (a, b) \<in> inv_image (less_than <*lex*> less_than) f"
  by (cases "f a"; cases "f b") auto

termination traverse
proof (relation "inv_image (less_than <*lex*> less_than)
     (\<lambda>x. case x of
        Inl (h, v, d, seen) \<Rightarrow> (card ({..<length h} - set seen), 0)
      | Inr (h, vs, d, seen) \<Rightarrow> (card ({..<length h} - set seen), Suc (length vs)))",
    goal_cases)
  case 1
  show ?case by (intro wf_inv_image wf_lex_prod wf_less_than)
next
  case (2 h v depth seen x1)
  then have "card ({..<length h} - set (seen @ [addr_of v])) < card ({..<length h} - set seen)"
    by (intro card_unseen_object) auto
  then show ?case by (intro lex_first) (simp del: set_append)
next
  case (3 h v depth seen x2)
  then have "card ({..<length h} - set (seen @ [addr_of v])) < card ({..<length h} - set seen)"
    by (intro card_unseen_object) auto
  then show ?case by (intro lex_first) (simp del: set_append)
next
  case (4 h v depth seen x3)
  then have "card ({..<length h} - set (seen @ [addr_of v])) < card ({..<length h} - set seen)"
    by (intro card_unseen_object) auto
  then show ?case by (intro lex_first) (simp del: set_append)
next
  case (5 h v depth seen x4)
  then have "card ({..<length h} - set (seen @ [addr_of v])) < card ({..<length h} - set seen)"
    by (intro card_unseen_object) auto
  then show ?case by (intro lex_first) (simp del: set_append)
next
  case (6 h v depth seen x51 x52)
  then have "card ({..<length h} - set (seen @ [addr_of v])) < card ({..<length h} - set seen)"
    by (intro card_unseen_object) auto
  then show ?case by (intro lex_first) (simp del: set_append)
next
  case (7 h v depth seen x51 x52)
  have "set (seen @ [addr_of v]) \<subseteq> set (traverse_each h x51 (depth - 1) (seen @ [addr_of v]))"
    using 7(4) by (rule traverse_dom_seen_subset(2))
  then have "card ({..<length h} - set (traverse_each h x51 (depth - 1) (seen @ [addr_of v])))
      \<le> card ({..<length h} - set (seen @ [addr_of v]))"
    by (rule card_unseen_mono)
  also have "\<dots> < card ({..<length h} - set seen)"
    using 7(1,2) by (intro card_unseen_object) auto
  finally show ?case by (intro lex_first) (simp del: set_append)
next
  case (8 h x xs depth seen)
  show ?case by (intro lex_second) simp_all
next
  case (9 h x xs depth seen)
  have "set seen \<subseteq> set (snd (traverse h x depth seen))"
    using 9 by (rule traverse_dom_seen_subset(1))
  then have "card ({..<length h} - set (snd (traverse h x depth seen)))
      \<le> card ({..<length h} - set seen)"
    by (rule card_unseen_mono)
  then show ?case by (intro lex_second) simp_all
qed



declare traverse.simps [simp del]

section \<open>The dependency graph and reactive effects (packages/reactivity/src)\<close>

subsection \<open>Objects and the module's state\<close>

text \<open>
  Effects, deps and computed refs are objects that refer to each other, and the code
  compares them by identity. Each is a reference (a number) into a store of the state
  \<open>world\<close>. A target is the identity of a reactive object; a key is a property key or
  one of the two symbols for iteration.
\<close>

type_synonym eid = nat
type_synonym did = nat
type_synonym cid = nat
type_synonym target = nat

datatype key = Key nat | ITERATE_KEY | MAP_KEY_ITERATE_KEY

type_synonym val = int

text \<open>
  Modelled from the spec: \<^verbatim>\<open>DirtyLevels\<close> (constants.ts) is an enum with a strict
  order, listed as NotDirty, QueryingDirty, MaybeDirty_ComputedSideEffect, MaybeDirty,
  Dirty; the code compares levels with \<open><\<close> and \<open>\<ge>\<close>. \<open>level\<close> is the number of a level.
\<close>

datatype DirtyLevels =
  NotDirty | QueryingDirty | MaybeDirty_ComputedSideEffect | MaybeDirty | Dirty

fun level :: "DirtyLevels \<Rightarrow> nat" where
  "level NotDirty = 0"
| "level QueryingDirty = 1"
| "level MaybeDirty_ComputedSideEffect = 2"
| "level MaybeDirty = 3"
| "level Dirty = 4"

text \<open>
  A \<^verbatim>\<open>Dep\<close> is a \<^verbatim>\<open>Map\<close> from effects to track ids, which keeps the order of insertion:
  the list \<open>entries\<close>. Its \<^verbatim>\<open>cleanup\<close> closure is one of two: \<open>DeleteKey t k\<close> is
  \<^verbatim>\<open>() => depsMap.delete(key)\<close> of \<^verbatim>\<open>track\<close>, where \<^verbatim>\<open>depsMap\<close> is the key map of the
  target \<open>t\<close>; \<open>ClearRefDep c\<close> is the closure that clears the \<^verbatim>\<open>dep\<close> field of the
  computed ref \<open>c\<close>.
\<close>

datatype cleanup = DeleteKey target key | ClearRefDep cid

record dep =
  entries :: "(eid \<times> nat) list"
  cleanup :: cleanup
  dep_computed :: "cid option"

text \<open>
  A \<^verbatim>\<open>ReactiveEffect\<close>. \<open>onStop\<close> says whether a callback \<^verbatim>\<open>onStop\<close> is attached.
  \<open>scheduler\<close> is the scheduler given at creation, if any: \<open>RunIfDirty\<close> is the one of
  \<^verbatim>\<open>effect()\<close> (\<^verbatim>\<open>if (_effect.dirty) _effect.run()\<close>), \<open>External\<close> one that hands the
  effect to a job queue. The function \<^verbatim>\<open>fn\<close> is not a field: it is a parameter of
  \<open>run\<close>. The track id is a number that only grows by one: a \<open>nat\<close>.
\<close>

datatype scheduler = RunIfDirty | External

record effect =
  active :: bool
  deps :: "did list"
  computed :: "cid option"
  allowRecurse :: bool
  onStop :: bool
  scheduler :: "scheduler option"
  dirtyLevel :: DirtyLevels
  trackId :: nat
  runnings :: nat
  shouldSchedule :: bool
  depsLength :: nat

text \<open>
  A \<^verbatim>\<open>ComputedRefImpl\<close>: its \<^verbatim>\<open>dep\<close>, the cached \<^verbatim>\<open>_value\<close> (\<open>None\<close> is
  \<^verbatim>\<open>undefined\<close>), its effect and \<^verbatim>\<open>_cacheable\<close>.
\<close>

record computedRef =
  c_dep :: "did option"
  c_value :: "val option"
  c_effect :: eid
  c_cacheable :: bool

text \<open>
  The state: the three stores, the counter that gives a new \<^verbatim>\<open>Dep\<close> its reference,
  \<^verbatim>\<open>targetMap\<close> (a \<^verbatim>\<open>WeakMap\<close> from targets to key maps), and the module's variables
  \<^verbatim>\<open>activeEffect\<close>, \<^verbatim>\<open>shouldTrack\<close>, \<^verbatim>\<open>trackStack\<close>, \<^verbatim>\<open>pauseScheduleStack\<close> and
  \<^verbatim>\<open>queueEffectSchedulers\<close> (the effects whose scheduler is queued). Five logs record
  calls of functions that are not part of the state: \<open>cleanups\<close>, the deps whose
  \<^verbatim>\<open>cleanup\<close> was called; \<open>onStop_calls\<close>, the effects whose \<^verbatim>\<open>onStop\<close> was called;
  \<open>fn_calls\<close>, how often the function of each effect was called; \<open>fn_results\<close>, what
  the last call of the function of each effect returned; \<open>scheduled\<close>, the effects
  handed to an \<open>External\<close> scheduler.
\<close>

record world =
  effects :: "eid \<Rightarrow> effect"
  dep_store :: "did \<Rightarrow> dep"
  next_dep :: did
  computeds :: "cid \<Rightarrow> computedRef"
  targetMap :: "target \<Rightarrow> (key \<Rightarrow> did option) option"
  activeEffect :: "eid option"
  shouldTrack :: bool
  trackStack :: "bool list"
  pauseScheduleStack :: int
  queueEffectSchedulers :: "eid list"
  cleanups :: "did list"
  onStop_calls :: "eid list"
  fn_calls :: "eid \<Rightarrow> nat"
  fn_results :: "eid \<Rightarrow> val option"
  scheduled :: "eid list"

subsection \<open>Dep\<close>

text \<open>Assignments to the fields of one effect or dep.\<close>

definition upd_effect :: "eid \<Rightarrow> (effect \<Rightarrow> effect) \<Rightarrow> world \<Rightarrow> world" where
  "upd_effect e f w = w\<lparr>effects := (effects w)(e := f (effects w e))\<rparr>"

definition upd_dep :: "did \<Rightarrow> (dep \<Rightarrow> dep) \<Rightarrow> world \<Rightarrow> world" where
  "upd_dep d f w = w\<lparr>dep_store := (dep_store w)(d := f (dep_store w d))\<rparr>"

text \<open>
  \<^verbatim>\<open>dep.get(effect)\<close>, \<^verbatim>\<open>dep.set(effect, id)\<close> (an effect that is in the map keeps its
  place), \<^verbatim>\<open>dep.delete(effect)\<close>, \<^verbatim>\<open>dep.size\<close>, \<^verbatim>\<open>createDep\<close> (dep.ts) and
  \<^verbatim>\<open>dep.cleanup()\<close>.
\<close>

definition dep_get :: "world \<Rightarrow> did \<Rightarrow> eid \<Rightarrow> nat option" where
  "dep_get w d e = map_of (entries (dep_store w d)) e"

definition dep_set :: "did \<Rightarrow> eid \<Rightarrow> nat \<Rightarrow> world \<Rightarrow> world" where
  "dep_set d e v w = upd_dep d (\<lambda>dp. dp\<lparr>entries := AList.update e v (entries dp)\<rparr>) w"

definition dep_delete :: "did \<Rightarrow> eid \<Rightarrow> world \<Rightarrow> world" where
  "dep_delete d e w = upd_dep d (\<lambda>dp. dp\<lparr>entries := AList.delete e (entries dp)\<rparr>) w"

definition dep_size :: "world \<Rightarrow> did \<Rightarrow> nat" where
  "dep_size w d = length (entries (dep_store w d))"

definition createDep :: "cleanup \<Rightarrow> cid option \<Rightarrow> world \<Rightarrow> did \<times> world" where
  "createDep cl c w =
     (next_dep w,
      w\<lparr>dep_store := (dep_store w)(next_dep w := \<lparr>entries = [], cleanup = cl, dep_computed = c\<rparr>),
        next_dep := next_dep w + 1\<rparr>)"

definition dep_cleanup :: "did \<Rightarrow> world \<Rightarrow> world" where
  "dep_cleanup d w =
     (let w1 = w\<lparr>cleanups := cleanups w @ [d]\<rparr>
      in case cleanup (dep_store w d) of
           DeleteKey t k \<Rightarrow>
             (case targetMap w1 t of
                None \<Rightarrow> w1
              | Some depsMap \<Rightarrow> w1\<lparr>targetMap := (targetMap w1)(t := Some (depsMap(k := None)))\<rparr>)
         | ClearRefDep c \<Rightarrow> w1\<lparr>computeds := (computeds w1)(c := (computeds w1 c)\<lparr>c_dep := None\<rparr>)\<rparr>)"

subsection \<open>cleanupDepEffect, preCleanupEffect, postCleanupEffect\<close>

definition cleanupDepEffect :: "did \<Rightarrow> eid \<Rightarrow> world \<Rightarrow> world" where
  "cleanupDepEffect d e w =
     (case dep_get w d e of
        None \<Rightarrow> w
      | Some tid \<Rightarrow>
          if trackId (effects w e) \<noteq> tid then
            (let w1 = dep_delete d e w
             in if dep_size w1 d = 0 then dep_cleanup d w1 else w1)
          else w)"

definition preCleanupEffect :: "eid \<Rightarrow> world \<Rightarrow> world" where
  "preCleanupEffect e w =
     upd_effect e (\<lambda>ef. ef\<lparr>trackId := trackId ef + 1, depsLength := 0\<rparr>) w"

text \<open>
  The loop of \<^verbatim>\<open>postCleanupEffect\<close> calls \<^verbatim>\<open>cleanupDepEffect\<close> on the entries of
  \<^verbatim>\<open>deps\<close> from \<^verbatim>\<open>_depsLength\<close> on; \<^verbatim>\<open>cleanupDepEffect\<close> changes neither \<^verbatim>\<open>deps\<close>
  nor \<^verbatim>\<open>_depsLength\<close>, so the loop is a fold over that part of the list. Then
  \<^verbatim>\<open>deps.length = _depsLength\<close> cuts the list.
\<close>

definition postCleanupEffect :: "eid \<Rightarrow> world \<Rightarrow> world" where
  "postCleanupEffect e w =
     (let ef = effects w e
      in if length (deps ef) > depsLength ef then
           upd_effect e (\<lambda>ef'. ef'\<lparr>deps := take (depsLength ef') (deps ef')\<rparr>)
             (fold (\<lambda>d. cleanupDepEffect d e) (drop (depsLength ef) (deps ef)) w)
         else w)"

subsection \<open>trackEffect and track\<close>

text \<open>
  \<^verbatim>\<open>effect.deps[effect._depsLength++] = dep\<close> writes at an index that is at most the
  length of the array (\<^verbatim>\<open>_depsLength\<close> never exceeds it: \<open>edges_ok\<close> below), so it
  replaces an entry or appends one. \<open>oldDep\<close> is \<open>None\<close> when the read
  \<^verbatim>\<open>effect.deps[effect._depsLength]\<close> is out of range (\<^verbatim>\<open>undefined\<close>). The hook
  \<^verbatim>\<open>onTrack\<close> of development builds is left out.
\<close>

definition array_put :: "'a list \<Rightarrow> nat \<Rightarrow> 'a \<Rightarrow> 'a list" where
  "array_put xs n x = (if n < length xs then xs[n := x] else xs @ [x])"

definition trackEffect :: "eid \<Rightarrow> did \<Rightarrow> world \<Rightarrow> world" where
  "trackEffect e d w =
     (if dep_get w d e \<noteq> Some (trackId (effects w e)) then
        (let w1 = dep_set d e (trackId (effects w e)) w;
             ef = effects w1 e;
             oldDep = (if depsLength ef < length (deps ef) then Some (deps ef ! depsLength ef) else None)
         in if oldDep \<noteq> Some d then
              upd_effect e (\<lambda>ef'. ef'\<lparr>deps := array_put (deps ef') (depsLength ef') d,
                                        depsLength := depsLength ef' + 1\<rparr>)
                (case oldDep of None \<Rightarrow> w1 | Some od \<Rightarrow> cleanupDepEffect od e w1)
            else upd_effect e (\<lambda>ef'. ef'\<lparr>depsLength := depsLength ef' + 1\<rparr>) w1)
      else w)"

text \<open>
  \<^verbatim>\<open>track(target, type, key)\<close>: the type of the access only goes to the debugger hook.
  A target without key map gets an empty one; a key without dep gets a new dep, whose
  cleanup deletes the key from that key map.
\<close>

definition track :: "target \<Rightarrow> key \<Rightarrow> world \<Rightarrow> world" where
  "track t k w =
     (case activeEffect w of
        Some e \<Rightarrow>
          if shouldTrack w then
            (let w1 = (case targetMap w t of
                         None \<Rightarrow> w\<lparr>targetMap := (targetMap w)(t := Some Map.empty)\<rparr>
                       | Some depsMap \<Rightarrow> w);
                 depsMap = (case targetMap w1 t of None \<Rightarrow> Map.empty | Some m \<Rightarrow> m)
             in case depsMap k of
                  Some d \<Rightarrow> trackEffect e d w1
                | None \<Rightarrow>
                    (let (d, w2) = createDep (DeleteKey t k) None w1
                     in trackEffect e d
                          (w2\<lparr>targetMap := (targetMap w2)(t := Some (depsMap(k \<mapsto> d)))\<rparr>)))
          else w
      | None \<Rightarrow> w)"

subsection \<open>ReactiveEffect.run and ReactiveEffect.stop\<close>

text \<open>
  \<open>fn\<close>, what the effect's function does to the state, is a parameter; its result is
  \<open>None\<close> when it does not return within its fuel. The \<^verbatim>\<open>finally\<close> block runs
  whatever \<open>fn\<close> returns.
\<close>

definition run :: "(world \<Rightarrow> ('a \<times> world) option) \<Rightarrow> eid \<Rightarrow> world \<Rightarrow> ('a \<times> world) option" where
  "run fn e w =
     (let w0 = upd_effect e (\<lambda>ef. ef\<lparr>dirtyLevel := NotDirty\<rparr>) w
      in if \<not> active (effects w0 e) then fn w0
         else
           (let lastShouldTrack = shouldTrack w0;
                lastEffect = activeEffect w0;
                w1 = w0\<lparr>shouldTrack := True, activeEffect := Some e\<rparr>;
                w2 = upd_effect e (\<lambda>ef. ef\<lparr>runnings := runnings ef + 1\<rparr>) w1;
                w3 = preCleanupEffect e w2
            in case fn w3 of
                 None \<Rightarrow> None
               | Some (r, w4) \<Rightarrow>
                   (let w5 = postCleanupEffect e w4;
                        w6 = upd_effect e (\<lambda>ef. ef\<lparr>runnings := runnings ef - 1\<rparr>) w5
                    in Some (r, w6\<lparr>activeEffect := lastEffect, shouldTrack := lastShouldTrack\<rparr>))))"

definition stop :: "eid \<Rightarrow> world \<Rightarrow> world" where
  "stop e w =
     (if active (effects w e) then
        (let w1 = postCleanupEffect e (preCleanupEffect e w);
             w2 = (if onStop (effects w1 e) then w1\<lparr>onStop_calls := onStop_calls w1 @ [e]\<rparr> else w1)
         in upd_effect e (\<lambda>ef. ef\<lparr>active := False\<rparr>) w2)
      else w)"

text \<open>
  An effect function that reads reactive properties, one after the other: each read is
  a call of \<^verbatim>\<open>track\<close> by the proxy of the object.
\<close>

definition reads :: "(target \<times> key) list \<Rightarrow> world \<Rightarrow> (unit \<times> world) option" where
  "reads rs w = Some ((), fold (\<lambda>(t, k). track t k) rs w)"

section \<open>Computed refs and the propagation of dirty levels\<close>

subsection \<open>pauseTracking, resetTracking, pauseScheduling, resetScheduling\<close>

text \<open>
  \<^verbatim>\<open>trackStack.pop()\<close> of an empty stack is \<^verbatim>\<open>undefined\<close>: tracking is switched on.
\<close>

definition pauseTracking :: "world \<Rightarrow> world" where
  "pauseTracking w = w\<lparr>trackStack := trackStack w @ [shouldTrack w], shouldTrack := False\<rparr>"

definition resetTracking :: "world \<Rightarrow> world" where
  "resetTracking w =
     (if trackStack w = [] then w\<lparr>shouldTrack := True\<rparr>
      else w\<lparr>shouldTrack := last (trackStack w), trackStack := butlast (trackStack w)\<rparr>)"

definition pauseScheduling :: "world \<Rightarrow> world" where
  "pauseScheduling w = w\<lparr>pauseScheduleStack := pauseScheduleStack w + 1\<rparr>"

text \<open>
  The functions below call one another through closures stored in the objects: a
  scheduler runs an effect, whose function reads a computed ref, whose getter writes a
  property, which triggers effects. Such a chain may not end (an effect that writes
  what it reads), so the calls that close a cycle go through a record of callbacks,
  and \<open>interp\<close> below ties the knot with fuel: with no fuel left a callback returns
  \<open>None\<close>. A result \<open>None\<close> always means that the call does not return.
\<close>

record calls =
  call_value :: "cid \<Rightarrow> world \<Rightarrow> (val option \<times> world) option"
  call_triggerEffects :: "did \<Rightarrow> DirtyLevels \<Rightarrow> world \<Rightarrow> world option"
  call_scheduler :: "eid \<Rightarrow> world \<Rightarrow> world option"
  call_fn :: "eid \<Rightarrow> world \<Rightarrow> (val \<times> world) option"

text \<open>
  The \<^verbatim>\<open>while\<close> loop of \<^verbatim>\<open>resetScheduling\<close>, with fuel: \<^verbatim>\<open>queueEffectSchedulers.shift()!()\<close>
  takes the first scheduler from the queue and calls it.
\<close>

fun resetScheduling_loop :: "calls \<Rightarrow> nat \<Rightarrow> world \<Rightarrow> world option" where
  "resetScheduling_loop rec 0 w = None"
| "resetScheduling_loop rec (Suc n) w =
     (if pauseScheduleStack w = 0 \<and> queueEffectSchedulers w \<noteq> [] then
        (case call_scheduler rec (hd (queueEffectSchedulers w))
                (w\<lparr>queueEffectSchedulers := tl (queueEffectSchedulers w)\<rparr>) of
           None \<Rightarrow> None
         | Some w' \<Rightarrow> resetScheduling_loop rec n w')
      else Some w)"

definition resetScheduling :: "calls \<Rightarrow> nat \<Rightarrow> world \<Rightarrow> world option" where
  "resetScheduling rec n w =
     resetScheduling_loop rec n (w\<lparr>pauseScheduleStack := pauseScheduleStack w - 1\<rparr>)"

subsection \<open>triggerRefValue, trackRefValue\<close>

text \<open>
  Modelled from the spec: \<^verbatim>\<open>triggerRefValue\<close> and \<^verbatim>\<open>trackRefValue\<close> (ref.ts).
  \<^verbatim>\<open>triggerRefValue(ref, level)\<close> propagates the level to the subscribers of the ref:
  \<^verbatim>\<open>triggerEffects\<close> on its dep, if it has one. \<^verbatim>\<open>trackRefValue(ref)\<close> tracks the read as
  a dependency of the active effect, if there is one and tracking is on: \<^verbatim>\<open>trackEffect\<close>
  on the dep of the ref, which is created when missing, with a cleanup that clears the
  field \<^verbatim>\<open>dep\<close> and the computed ref as owner.
\<close>

definition triggerRefValue :: "calls \<Rightarrow> cid \<Rightarrow> DirtyLevels \<Rightarrow> world \<Rightarrow> world option" where
  "triggerRefValue rec c lvl w =
     (case c_dep (computeds w c) of
        None \<Rightarrow> Some w
      | Some d \<Rightarrow> call_triggerEffects rec d lvl w)"

definition trackRefValue :: "cid \<Rightarrow> world \<Rightarrow> world" where
  "trackRefValue c w =
     (case activeEffect w of
        Some e \<Rightarrow>
          if shouldTrack w then
            (case c_dep (computeds w c) of
               Some d \<Rightarrow> trackEffect e d w
             | None \<Rightarrow>
                 (let (d, w1) = createDep (ClearRefDep c) (Some c) w
                  in trackEffect e d
                       (w1\<lparr>computeds := (computeds w1)(c := (computeds w1 c)\<lparr>c_dep := Some d\<rparr>)\<rparr>)))
          else w
      | None \<Rightarrow> w)"

subsection \<open>triggerEffects\<close>

text \<open>
  \<^verbatim>\<open>effect.trigger()\<close>: \<^verbatim>\<open>NOOP\<close> for the effect of \<^verbatim>\<open>effect()\<close>; for the effect of a computed
  ref the closure of the constructor of \<^verbatim>\<open>ComputedRefImpl\<close>.
\<close>

definition effect_trigger :: "calls \<Rightarrow> eid \<Rightarrow> world \<Rightarrow> world option" where
  "effect_trigger rec e w =
     (case computed (effects w e) of
        None \<Rightarrow> Some w
      | Some c \<Rightarrow>
          triggerRefValue rec c
            (if dirtyLevel (effects w (c_effect (computeds w c))) = MaybeDirty_ComputedSideEffect
             then MaybeDirty_ComputedSideEffect else MaybeDirty) w)"

text \<open>
  One round of the loop of \<^verbatim>\<open>triggerEffects\<close>. \<open>tracking\<close> is computed once and reused
  (\<^verbatim>\<open>tracking ??= dep.get(effect) === effect._trackId\<close>): neither the dep nor the track
  id changes between the two tests.
\<close>

definition trigger_one :: "calls \<Rightarrow> did \<Rightarrow> DirtyLevels \<Rightarrow> eid \<Rightarrow> world \<Rightarrow> world option" where
  "trigger_one rec d lvl e w =
     (let tracking = (dep_get w d e = Some (trackId (effects w e)));
          w1 = (if level (dirtyLevel (effects w e)) < level lvl \<and> tracking
                then upd_effect e (\<lambda>ef. ef\<lparr>shouldSchedule := (shouldSchedule ef \<or> dirtyLevel ef = NotDirty),
                                           dirtyLevel := lvl\<rparr>) w
                else w)
      in if shouldSchedule (effects w1 e) \<and> tracking then
           (case effect_trigger rec e w1 of
              None \<Rightarrow> None
            | Some w2 \<Rightarrow>
                Some (if (runnings (effects w2 e) = 0 \<or> allowRecurse (effects w2 e)) \<and>
                         dirtyLevel (effects w2 e) \<noteq> MaybeDirty_ComputedSideEffect
                      then (let w3 = upd_effect e (\<lambda>ef. ef\<lparr>shouldSchedule := False\<rparr>) w2
                            in if scheduler (effects w3 e) \<noteq> None
                               then w3\<lparr>queueEffectSchedulers := queueEffectSchedulers w3 @ [e]\<rparr>
                               else w3)
                      else w2))
         else Some w1)"

fun trigger_each :: "calls \<Rightarrow> did \<Rightarrow> DirtyLevels \<Rightarrow> eid list \<Rightarrow> world \<Rightarrow> world option" where
  "trigger_each rec d lvl [] w = Some w"
| "trigger_each rec d lvl (e # es) w =
     (case trigger_one rec d lvl e w of
        None \<Rightarrow> None
      | Some w' \<Rightarrow> trigger_each rec d lvl es w')"

text \<open>
  The loop runs over the keys that the dep has when it starts: schedulers are paused
  while it runs, so no effect is run and the dep does not change.
\<close>

definition triggerEffects :: "calls \<Rightarrow> nat \<Rightarrow> did \<Rightarrow> DirtyLevels \<Rightarrow> world \<Rightarrow> world option" where
  "triggerEffects rec n d lvl w =
     (case trigger_each rec d lvl (map fst (entries (dep_store w d))) (pauseScheduling w) of
        None \<Rightarrow> None
      | Some w' \<Rightarrow> resetScheduling rec n w')"

subsection \<open>trigger\<close>

text \<open>
  \<^verbatim>\<open>trigger\<close> (reactiveEffect.ts) for a target that is a plain object (not an array, not a
  \<^verbatim>\<open>Map\<close>), with the operations \<open>SET\<close>, \<open>ADD\<close> and \<open>DELETE\<close>: the dep of the key, and for
  \<open>ADD\<close> and \<open>DELETE\<close> the dep of \<open>ITERATE_KEY\<close>. The deps are looked up before the
  first is triggered.
\<close>

datatype TriggerOpTypes = SET | ADD | DELETE

fun trigger_deps :: "calls \<Rightarrow> nat \<Rightarrow> did option list \<Rightarrow> world \<Rightarrow> world option" where
  "trigger_deps rec n [] w = Some w"
| "trigger_deps rec n (None # ds) w = trigger_deps rec n ds w"
| "trigger_deps rec n (Some d # ds) w =
     (case triggerEffects rec n d Dirty w of
        None \<Rightarrow> None
      | Some w' \<Rightarrow> trigger_deps rec n ds w')"

definition trigger :: "calls \<Rightarrow> nat \<Rightarrow> target \<Rightarrow> TriggerOpTypes \<Rightarrow> key option \<Rightarrow> world \<Rightarrow> world option" where
  "trigger rec n t ty k w =
     (case targetMap w t of
        None \<Rightarrow> Some w
      | Some depsMap \<Rightarrow>
          (let deps = (case k of None \<Rightarrow> [] | Some k' \<Rightarrow> [depsMap k']) @
                      (case ty of
                         ADD \<Rightarrow> [depsMap ITERATE_KEY]
                       | DELETE \<Rightarrow> [depsMap ITERATE_KEY]
                       | SET \<Rightarrow> [])
           in case trigger_deps rec n deps (pauseScheduling w) of
                None \<Rightarrow> None
              | Some w' \<Rightarrow> resetScheduling rec n w'))"

subsection \<open>ReactiveEffect.dirty\<close>

text \<open>
  The getter \<^verbatim>\<open>dirty\<close>. The loop over \<^verbatim>\<open>deps[i]\<close> for \<^verbatim>\<open>i < _depsLength\<close> reads the value of
  each computed ref that owns a dep (\<^verbatim>\<open>triggerComputed\<close>) and stops when the level has
  become \<open>Dirty\<close>. A read of \<^verbatim>\<open>deps[i].computed\<close> past the end of the array throws: \<open>None\<close>.
\<close>

definition set_dirtyLevel :: "eid \<Rightarrow> DirtyLevels \<Rightarrow> world \<Rightarrow> world" where
  "set_dirtyLevel e lvl w = upd_effect e (\<lambda>ef. ef\<lparr>dirtyLevel := lvl\<rparr>) w"

fun dirty_loop :: "calls \<Rightarrow> eid \<Rightarrow> nat \<Rightarrow> nat \<Rightarrow> world \<Rightarrow> world option" where
  "dirty_loop rec e 0 i w = None"
| "dirty_loop rec e (Suc m) i w =
     (if i < depsLength (effects w e) then
        (if i < length (deps (effects w e)) then
           (case dep_computed (dep_store w (deps (effects w e) ! i)) of
              None \<Rightarrow> dirty_loop rec e m (i + 1) w
            | Some c \<Rightarrow>
                (case call_value rec c w of
                   None \<Rightarrow> None
                 | Some (v, w1) \<Rightarrow>
                     if level (dirtyLevel (effects w1 e)) \<ge> level Dirty then Some w1
                     else dirty_loop rec e m (i + 1) w1))
         else None)
      else Some w)"

definition effect_dirty :: "calls \<Rightarrow> nat \<Rightarrow> eid \<Rightarrow> world \<Rightarrow> (bool \<times> world) option" where
  "effect_dirty rec n e w =
     (if dirtyLevel (effects w e) = MaybeDirty_ComputedSideEffect \<or>
         dirtyLevel (effects w e) = MaybeDirty
      then
        (case dirty_loop rec e n 0 (pauseTracking (set_dirtyLevel e QueryingDirty w)) of
           None \<Rightarrow> None
         | Some w3 \<Rightarrow>
             (let w4 = (if dirtyLevel (effects w3 e) = QueryingDirty
                        then set_dirtyLevel e NotDirty w3 else w3);
                  w5 = resetTracking w4
              in Some (level (dirtyLevel (effects w5 e)) \<ge> level Dirty, w5)))
      else Some (level (dirtyLevel (effects w e)) \<ge> level Dirty, w))"

subsection \<open>ComputedRefImpl.value\<close>

text \<open>
  \<^verbatim>\<open>get value()\<close>. In \<^verbatim>\<open>hasChanged(self._value, (self._value = self.effect.run()!))\<close> the
  old value is read before the effect is run. The result of the getter \<open>dirty\<close> is not
  asked for when the ref is not cacheable.
\<close>

definition hasChanged :: "val option \<Rightarrow> val option \<Rightarrow> bool" where
  "hasChanged v old = (v \<noteq> old)"

definition computed_value :: "calls \<Rightarrow> nat \<Rightarrow> cid \<Rightarrow> world \<Rightarrow> (val option \<times> world) option" where
  "computed_value rec n c w =
     (let e = c_effect (computeds w c)
      in case (if \<not> c_cacheable (computeds w c) then Some (True, w) else effect_dirty rec n e w) of
           None \<Rightarrow> None
         | Some (dirty, w1) \<Rightarrow>
             (case (if dirty then
                      (case run (call_fn rec e) e w1 of
                         None \<Rightarrow> None
                       | Some (r, w2) \<Rightarrow>
                           (let w3 = w2\<lparr>computeds := (computeds w2)(c := (computeds w2 c)\<lparr>c_value := Some r\<rparr>)\<rparr>
                            in if hasChanged (c_value (computeds w1 c)) (Some r)
                               then triggerRefValue rec c Dirty w3 else Some w3))
                    else Some w1) of
                None \<Rightarrow> None
              | Some w4 \<Rightarrow>
                  (let w5 = trackRefValue c w4
                   in case (if level (dirtyLevel (effects w5 e)) \<ge> level MaybeDirty_ComputedSideEffect
                            then triggerRefValue rec c MaybeDirty_ComputedSideEffect w5
                            else Some w5) of
                        None \<Rightarrow> None
                      | Some w6 \<Rightarrow> Some (c_value (computeds w6 c), w6))))"

subsection \<open>Effect functions and schedulers\<close>

text \<open>
  The function of an effect (for a computed ref: its getter) is user code. Here it is
  a script: the reads of properties (\<open>Get\<close>, a call of \<^verbatim>\<open>track\<close> by the proxy), the writes
  of properties (\<open>Put\<close>, a call of \<^verbatim>\<open>trigger\<close> by the proxy) and the reads of computed refs
  (\<open>GetValue\<close>) that it makes, in order, and the value it returns. The script of the
  \<open>k\<close>-th call of the function of effect \<open>e\<close> is \<open>prog e k\<close>.
\<close>

datatype op = Get target key | Put target TriggerOpTypes key | GetValue cid

type_synonym prog = "eid \<Rightarrow> nat \<Rightarrow> op list \<times> val"

fun exec_ops :: "calls \<Rightarrow> nat \<Rightarrow> op list \<Rightarrow> world \<Rightarrow> world option" where
  "exec_ops rec n [] w = Some w"
| "exec_ops rec n (Get t k # ops) w = exec_ops rec n ops (track t k w)"
| "exec_ops rec n (Put t ty k # ops) w =
     (case trigger rec n t ty (Some k) w of
        None \<Rightarrow> None
      | Some w' \<Rightarrow> exec_ops rec n ops w')"
| "exec_ops rec n (GetValue c # ops) w =
     (case call_value rec c w of
        None \<Rightarrow> None
      | Some (v, w') \<Rightarrow> exec_ops rec n ops w')"

definition exec_fn :: "prog \<Rightarrow> calls \<Rightarrow> nat \<Rightarrow> eid \<Rightarrow> world \<Rightarrow> (val \<times> world) option" where
  "exec_fn prog rec n e w =
     (let (ops, r) = prog e (fn_calls w e)
      in case exec_ops rec n ops (w\<lparr>fn_calls := (fn_calls w)(e := fn_calls w e + 1)\<rparr>) of
           None \<Rightarrow> None
         | Some w' \<Rightarrow> Some (r, w'\<lparr>fn_results := (fn_results w')(e := Some r)\<rparr>))"

text \<open>
  A call of the scheduler of an effect: the one of \<^verbatim>\<open>effect()\<close> runs the effect if it is
  dirty.
\<close>

definition run_scheduler :: "calls \<Rightarrow> nat \<Rightarrow> eid \<Rightarrow> world \<Rightarrow> world option" where
  "run_scheduler rec n e w =
     (case scheduler (effects w e) of
        None \<Rightarrow> Some w
      | Some External \<Rightarrow> Some (w\<lparr>scheduled := scheduled w @ [e]\<rparr>)
      | Some RunIfDirty \<Rightarrow>
          (case effect_dirty rec n e w of
             None \<Rightarrow> None
           | Some (dirty, w1) \<Rightarrow>
               if dirty then map_option snd (run (call_fn rec e) e w1) else Some w1))"

text \<open>The callbacks with fuel \<open>n\<close>, and a read of \<^verbatim>\<open>.value\<close> from outside.\<close>

fun interp :: "prog \<Rightarrow> nat \<Rightarrow> calls" where
  "interp prog 0 =
     \<lparr>call_value = (\<lambda>c w. None), call_triggerEffects = (\<lambda>d lvl w. None),
      call_scheduler = (\<lambda>e w. None), call_fn = (\<lambda>e w. None)\<rparr>"
| "interp prog (Suc n) =
     \<lparr>call_value = computed_value (interp prog n) (Suc n),
      call_triggerEffects = triggerEffects (interp prog n) (Suc n),
      call_scheduler = run_scheduler (interp prog n) (Suc n),
      call_fn = exec_fn prog (interp prog n) (Suc n)\<rparr>"

definition read_value :: "prog \<Rightarrow> nat \<Rightarrow> cid \<Rightarrow> world \<Rightarrow> (val option \<times> world) option" where
  "read_value prog n c w = call_value (interp prog n) c w"

text \<open>
  A write of a property from outside (the proxy calls \<^verbatim>\<open>trigger\<close>), and a run of an effect
  from outside (the runner that \<^verbatim>\<open>effect()\<close> returns).
\<close>

definition write_property :: "prog \<Rightarrow> nat \<Rightarrow> target \<Rightarrow> TriggerOpTypes \<Rightarrow> key \<Rightarrow> world \<Rightarrow> world option" where
  "write_property prog n t ty k w = trigger (interp prog n) (Suc n) t ty (Some k) w"

definition run_effect :: "prog \<Rightarrow> nat \<Rightarrow> eid \<Rightarrow> world \<Rightarrow> (val \<times> world) option" where
  "run_effect prog n e w = run (call_fn (interp prog n) e) e w"

section \<open>Orders, invariants and example states\<close>

subsection \<open>Orders, invariants and example states of the scheduler\<close>

text \<open>
  The test of the binary search: the entry \<open>jb\<close> stays before a job of id \<open>ident\<close>
  when its id is smaller, or equal with \<^verbatim>\<open>pre\<close> set.
\<close>

definition goes_before :: "int \<Rightarrow> job \<Rightarrow> bool" where
  "goes_before ident jb = (num_less (getId jb) (Num ident) \<or> (getId jb = Num ident \<and> job_pre jb))"

text \<open>
  The order of the queue: ids ascending (no id is \<^verbatim>\<open>Infinity\<close>), and \<^verbatim>\<open>pre\<close> jobs
  first among those of one id. \<open>window_sorted\<close>: the part of the queue after
  \<open>flushIndex\<close>, where the binary search works, is in that order.
\<close>

definition job_le :: "job \<Rightarrow> job \<Rightarrow> bool" where
  "job_le a b = (num_less (getId a) (getId b) \<or> (getId a = getId b \<and> (job_pre a \<or> \<not> job_pre b)))"

definition window_sorted :: "sched \<Rightarrow> bool" where
  "window_sorted s = sorted_wrt (\<lambda>x y. job_le (jobs s x) (jobs s y)) (drop (flushIndex s + 1) (queue s))"

text \<open>
  The position the specification words give: the first index whose entry is at or after
  the job's own \<open>(id, pre)\<close> pair in that order.
\<close>

definition spec_insertion_index :: "sched \<Rightarrow> jobref \<Rightarrow> nat" where
  "spec_insertion_index s jb =
     length (takeWhile (\<lambda>x. \<not> job_le (jobs s jb) (jobs s x)) (queue s))"



text \<open>
  The recursion check. \<open>count_of seen j\<close> is the count that \<open>seen\<close> holds for the job
  \<open>j\<close> (\<open>0\<close> when it has none), \<open>cap_error s jb\<close> the error that the check hands to
  \<^verbatim>\<open>handleError\<close> for the job \<open>jb\<close>, and \<open>counts_ok\<close> says that no count exceeds the limit by
  more than one.
\<close>

definition count_of :: "CountMap \<Rightarrow> jobref \<Rightarrow> nat" where
  "count_of seen j = (case seen j of None \<Rightarrow> 0 | Some c \<Rightarrow> c)"






text \<open>The module's initial state, and the states of the examples.\<close>

definition job0 :: job where
  "job0 = \<lparr>job_id = None, job_pre = False, job_active = None, job_allowRecurse = False,
           job_i = None\<rparr>"

definition sched0 :: sched where
  "sched0 = \<lparr>isFlushing = False, isFlushPending = False, queue = [], flushIndex = 0,
             pendingPostFlushCbs = [], activePostFlushCbs = None, postFlushIndex = 0,
             currentFlushPromise = False, jobs = (\<lambda>r. job0), invoked = [], errors = []\<rparr>"


definition null_id_sched :: sched where
  "null_id_sched = sched0\<lparr>queue := [0, 1], jobs := (\<lambda>r. job0\<lparr>job_pre := (r = 1)\<rparr>)\<rparr>"

definition pre_sched :: sched where
  "pre_sched = sched0\<lparr>isFlushing := True, queue := [0, 1],
      jobs := (\<lambda>r. job0\<lparr>job_id := Some (if r = 0 then 0 else 1), job_pre := (r \<noteq> 0)\<rparr>)\<rparr>"

definition idle_sched :: sched where
  "idle_sched = sched0\<lparr>queue := [0],
      jobs := (\<lambda>r. job0\<lparr>job_id := Some (if r = 0 then 5 else 3)\<rparr>)\<rparr>"

definition three_sched :: sched where
  "three_sched = sched0\<lparr>queue := [1, 2, 3]\<rparr>"



subsection \<open>An example heap\<close>

text \<open>
  Object \<open>0\<close> is an array that holds object \<open>1\<close>, a ref back to object \<open>0\<close>, and
  object \<open>2\<close>, a plain object that refers to itself, to object \<open>1\<close>, and under symbol
  keys to object \<open>0\<close> and (not enumerable) to object \<open>3\<close>, which carries the skip marker.
\<close>

definition cyclic_heap :: heap where
  "cyclic_heap =
     [\<lparr>skip = False, shape = ArrayObj [Obj 1, Prim, Obj 2]\<rparr>,
      \<lparr>skip = False, shape = RefObj (Obj 0)\<rparr>,
      \<lparr>skip = False, shape = PlainObj [Obj 2, Obj 1] [(True, Obj 0), (False, Obj 3)]\<rparr>,
      \<lparr>skip = True, shape = OtherObj\<rparr>]"

subsection \<open>Invariants and example states of the dependency graph\<close>

text \<open>
  \<open>slot w t k\<close> is the dep that \<^verbatim>\<open>targetMap\<close> holds for the key \<open>k\<close> of the target
  \<open>t\<close>, and \<open>present w d\<close> says that the dep \<open>d\<close> is in the key map of some target.
\<close>

definition slot :: "world \<Rightarrow> target \<Rightarrow> key \<Rightarrow> did option" where
  "slot w t k = (case targetMap w t of None \<Rightarrow> None | Some m \<Rightarrow> m k)"

definition present :: "world \<Rightarrow> did \<Rightarrow> bool" where
  "present w d = (\<exists>t m k. targetMap w t = Some m \<and> m k = Some d)"

text \<open>
  The invariant of the target map: a dep that a key map holds has been created, is the
  dep of that key (its cleanup deletes that key) and is not empty; a dep of a key that
  is not empty is in the key map of its target under its key; a reference not yet given
  to a dep has no entries.
\<close>

definition registry_ok :: "world \<Rightarrow> bool" where
  "registry_ok w =
     ((\<forall>t m k d. targetMap w t = Some m \<and> m k = Some d \<longrightarrow>
          d < next_dep w \<and> cleanup (dep_store w d) = DeleteKey t k \<and> entries (dep_store w d) \<noteq> []) \<and>
      (\<forall>d t k. entries (dep_store w d) \<noteq> [] \<and> cleanup (dep_store w d) = DeleteKey t k \<longrightarrow>
          (\<exists>m. targetMap w t = Some m \<and> m k = Some d)) \<and>
      (\<forall>d. next_dep w \<le> d \<longrightarrow> entries (dep_store w d) = []))"

text \<open>
  The invariant of the edges between effects and deps: a track id in a dep is at most
  the effect's; the keys of a dep are distinct (it is a \<^verbatim>\<open>Map\<close>); a dep that holds an
  effect is in the \<^verbatim>\<open>deps\<close> of the effect; \<^verbatim>\<open>_depsLength\<close> is at most the length of
  \<^verbatim>\<open>deps\<close>; the \<^verbatim>\<open>deps\<close> have been created; the deps that hold the effect with its
  current track id are those of the first \<^verbatim>\<open>_depsLength\<close> entries of \<^verbatim>\<open>deps\<close>, which
  are distinct.
\<close>

definition edges_ok :: "world \<Rightarrow> bool" where
  "edges_ok w =
     ((\<forall>d e i. dep_get w d e = Some i \<longrightarrow> i \<le> trackId (effects w e)) \<and>
      (\<forall>d. distinct (map fst (entries (dep_store w d)))) \<and>
      (\<forall>e d. dep_get w d e \<noteq> None \<longrightarrow> d \<in> set (deps (effects w e))) \<and>
      (\<forall>e. depsLength (effects w e) \<le> length (deps (effects w e))) \<and>
      (\<forall>e d. d \<in> set (deps (effects w e)) \<longrightarrow> d < next_dep w) \<and>
      (\<forall>e d. dep_get w d e = Some (trackId (effects w e)) \<longleftrightarrow>
           d \<in> set (take (depsLength (effects w e)) (deps (effects w e)))) \<and>
      (\<forall>e. distinct (take (depsLength (effects w e)) (deps (effects w e)))))"

definition world_ok :: "world \<Rightarrow> bool" where
  "world_ok w = (registry_ok w \<and> edges_ok w)"

text \<open>
  \<open>tracking w e\<close>: the effect \<open>e\<close> is the active one and tracking is on.
  \<open>tracked w e t k\<close>: the dep of \<open>(t, k)\<close> holds \<open>e\<close> with its current track id.
  \<open>current_slots w e S\<close>: the deps that hold \<open>e\<close> with its current track id are deps
  of keys in \<open>S\<close>. \<open>new_dep_world\<close> is the state in which \<^verbatim>\<open>track\<close> has created and
  stored a dep for \<open>(t, k)\<close>.
\<close>

definition tracking :: "world \<Rightarrow> eid \<Rightarrow> bool" where
  "tracking w e = (activeEffect w = Some e \<and> shouldTrack w)"

definition tracked :: "world \<Rightarrow> eid \<Rightarrow> target \<Rightarrow> key \<Rightarrow> bool" where
  "tracked w e t k = (\<exists>d. slot w t k = Some d \<and> dep_get w d e = Some (trackId (effects w e)))"

definition current_slots :: "world \<Rightarrow> eid \<Rightarrow> (target \<times> key) set \<Rightarrow> bool" where
  "current_slots w e S =
     (\<forall>d. dep_get w d e = Some (trackId (effects w e)) \<longrightarrow>
        (\<exists>t k. (t, k) \<in> S \<and> cleanup (dep_store w d) = DeleteKey t k))"

definition new_dep_world :: "target \<Rightarrow> key \<Rightarrow> world \<Rightarrow> world" where
  "new_dep_world t k w =
     w\<lparr>dep_store := (dep_store w)(next_dep w := \<lparr>entries = [], cleanup = DeleteKey t k, dep_computed = None\<rparr>),
       next_dep := next_dep w + 1,
       targetMap := (targetMap w)(t := Some ((case targetMap w t of None \<Rightarrow> Map.empty | Some m \<Rightarrow> m)
                                              (k \<mapsto> next_dep w)))\<rparr>"

text \<open>
  The two halves of \<open>run\<close> on an active effect whose function reads the properties
  \<open>rs\<close>: the state when the function starts, and the state when \<open>run\<close> returns.
\<close>

definition run_setup :: "eid \<Rightarrow> world \<Rightarrow> world" where
  "run_setup e w =
     preCleanupEffect e
       (upd_effect e (\<lambda>ef. ef\<lparr>runnings := runnings ef + 1\<rparr>)
          ((upd_effect e (\<lambda>ef. ef\<lparr>dirtyLevel := NotDirty\<rparr>) w)\<lparr>shouldTrack := True, activeEffect := Some e\<rparr>))"

definition after_run :: "(target \<times> key) list \<Rightarrow> eid \<Rightarrow> world \<Rightarrow> world" where
  "after_run rs e w =
     (upd_effect e (\<lambda>ef. ef\<lparr>runnings := runnings ef - 1\<rparr>)
        (postCleanupEffect e (fold (\<lambda>(t, k). track t k) rs (run_setup e w))))
     \<lparr>activeEffect := activeEffect w, shouldTrack := shouldTrack w\<rparr>"

text \<open>
  The initial state (every effect is as created, with no deps, and no dep exists), the
  state after effect \<open>0\<close> has run and read the keys \<open>0\<close> and \<open>1\<close> of target \<open>0\<close>, and
  that state with an \<^verbatim>\<open>onStop\<close> callback on the effect.
\<close>

definition effect0 :: effect where
  "effect0 = \<lparr>active = True, deps = [], computed = None, allowRecurse = False, onStop = False,
              scheduler = None, dirtyLevel = Dirty, trackId = 0, runnings = 0,
              shouldSchedule = False, depsLength = 0\<rparr>"

definition world0 :: world where
  "world0 = \<lparr>effects = (\<lambda>e. effect0),
             dep_store = (\<lambda>d. \<lparr>entries = [], cleanup = ClearRefDep 0, dep_computed = None\<rparr>),
             next_dep = 0,
             computeds = (\<lambda>c. \<lparr>c_dep = None, c_value = None, c_effect = c, c_cacheable = True\<rparr>),
             targetMap = (\<lambda>t. None), activeEffect = None, shouldTrack = True, trackStack = [],
             pauseScheduleStack = 0, queueEffectSchedulers = [], cleanups = [], onStop_calls = [],
             fn_calls = (\<lambda>e. 0), fn_results = (\<lambda>e. None), scheduled = []\<rparr>"

definition ab_world :: world where
  "ab_world = after_run [(0, Key 0), (0, Key 1)] 0 world0"

definition onstop_world :: world where
  "onstop_world = upd_effect 0 (\<lambda>ef. ef\<lparr>onStop := True\<rparr>) ab_world"

subsection \<open>Computed refs\<close>

text \<open>
  \<open>quiet w w'\<close>: the state \<open>w'\<close> differs from \<open>w\<close> in the dependency graph only. The
  calls, results and levels of the effects and the values of the computed refs are
  the same. \<open>no_new_ref_dep w w'\<close>: no computed ref got a dep.
\<close>

definition quiet :: "world \<Rightarrow> world \<Rightarrow> bool" where
  "quiet w w' \<longleftrightarrow>
     fn_calls w' = fn_calls w \<and> fn_results w' = fn_results w \<and>
     (\<forall>e. dirtyLevel (effects w' e) = dirtyLevel (effects w e) \<and>
          active (effects w' e) = active (effects w e) \<and>
          computed (effects w' e) = computed (effects w e) \<and>
          scheduler (effects w' e) = scheduler (effects w e)) \<and>
     (\<forall>c. c_value (computeds w' c) = c_value (computeds w c) \<and>
          c_effect (computeds w' c) = c_effect (computeds w c) \<and>
          c_cacheable (computeds w' c) = c_cacheable (computeds w c))"

definition no_new_ref_dep :: "world \<Rightarrow> world \<Rightarrow> bool" where
  "no_new_ref_dep w w' \<longleftrightarrow> (\<forall>c. c_dep (computeds w c) = None \<longrightarrow> c_dep (computeds w' c) = None)"

text \<open>
  The invariant of the computed refs: the cached \<^verbatim>\<open>_value\<close> of each computed ref is what
  the last call of its getter returned (both \<open>None\<close> before the first call); the effect
  of a computed ref has no scheduler (the constructor gives it none) and belongs to
  that computed ref only.
\<close>

definition computeds_ok :: "world \<Rightarrow> bool" where
  "computeds_ok w \<longleftrightarrow>
     (\<forall>c. c_value (computeds w c) = fn_results w (c_effect (computeds w c)) \<and>
          scheduler (effects w (c_effect (computeds w c))) = None) \<and>
     inj (\<lambda>c. c_effect (computeds w c))"

text \<open>
  For the proof that every call keeps the invariant: \<open>view\<close> is the part of the state
  the invariant speaks of. \<open>computeds_inv b E K\<close> fixes the effect \<open>E c\<close> and the flag
  \<open>K c\<close> of each computed ref (they never change) and, when \<open>b\<close> holds, is the invariant;
  \<open>fn_inv\<close> is what holds between the return of the getter of the effect \<open>e\<close> and the
  assignment of its result to \<^verbatim>\<open>_value\<close>; \<open>sound\<close> says that the callbacks keep it.
\<close>

definition view :: "world \<Rightarrow> (eid \<Rightarrow> val option) \<times> (eid \<Rightarrow> scheduler option) \<times> (cid \<Rightarrow> val option \<times> eid \<times> bool)" where
  "view w = (fn_results w, (\<lambda>e. scheduler (effects w e)),
             (\<lambda>c. (c_value (computeds w c), c_effect (computeds w c), c_cacheable (computeds w c))))"

definition computeds_inv :: "bool \<Rightarrow> (cid \<Rightarrow> eid) \<Rightarrow> (cid \<Rightarrow> bool) \<Rightarrow> world \<Rightarrow> bool" where
  "computeds_inv b E K w \<longleftrightarrow>
     (\<forall>c. c_effect (computeds w c) = E c \<and> c_cacheable (computeds w c) = K c) \<and>
     (b \<longrightarrow> (\<forall>c. c_value (computeds w c) = fn_results w (E c) \<and>
                  scheduler (effects w (E c)) = None) \<and> inj E)"

definition fn_inv :: "bool \<Rightarrow> (cid \<Rightarrow> eid) \<Rightarrow> (cid \<Rightarrow> bool) \<Rightarrow> eid \<Rightarrow> val \<Rightarrow> world \<Rightarrow> bool" where
  "fn_inv b E K e r w \<longleftrightarrow>
     (\<forall>c. c_effect (computeds w c) = E c \<and> c_cacheable (computeds w c) = K c) \<and>
     (b \<longrightarrow> (\<forall>c. (E c \<noteq> e \<longrightarrow> c_value (computeds w c) = fn_results w (E c)) \<and>
                  scheduler (effects w (E c)) = None) \<and> inj E \<and> fn_results w e = Some r)"

definition sound :: "bool \<Rightarrow> (cid \<Rightarrow> eid) \<Rightarrow> (cid \<Rightarrow> bool) \<Rightarrow> calls \<Rightarrow> bool" where
  "sound b E K rec \<longleftrightarrow>
     (\<forall>c w v w'. computeds_inv b E K w \<longrightarrow> call_value rec c w = Some (v, w') \<longrightarrow>
        computeds_inv b E K w') \<and>
     (\<forall>d l w w'. computeds_inv b E K w \<longrightarrow> call_triggerEffects rec d l w = Some w' \<longrightarrow>
        computeds_inv b E K w') \<and>
     (\<forall>e w w'. computeds_inv b E K w \<longrightarrow> call_scheduler rec e w = Some w' \<longrightarrow>
        computeds_inv b E K w') \<and>
     (\<forall>e w r w'. computeds_inv b E K w \<longrightarrow> call_fn rec e w = Some (r, w') \<longrightarrow>
        fn_inv b E K e r w')"

text \<open>
  A state where each effect \<open>c\<close> is the effect of the computed ref \<open>c\<close>, never read, and
  four getters: one that reads two properties; one that reads a property and writes
  it; computed ref \<open>1\<close> reading computed ref \<open>0\<close>, where \<open>0\<close> reads a property and writes
  it (\<open>down_prog\<close>), or where \<open>1\<close> writes the property that \<open>0\<close> reads (\<open>up_prog\<close>).
\<close>

definition comp_world :: world where
  "comp_world = world0\<lparr>effects := (\<lambda>e. effect0\<lparr>computed := Some e\<rparr>)\<rparr>"

definition reads_prog :: prog where
  "reads_prog e k = ([Get 0 (Key 0), Get 0 (Key 1)], 7)"

definition self_prog :: prog where
  "self_prog e k = ([Get 0 (Key 0), Put 0 SET (Key 0)], int k)"

definition down_prog :: prog where
  "down_prog e k = (if e = 0 then ([Get 0 (Key 0), Put 0 SET (Key 0)], int k)
                    else ([GetValue 0], 10 + int k))"

definition up_prog :: prog where
  "up_prog e k = (if e = 0 then ([Get 0 (Key 0)], int k)
                  else ([GetValue 0, Put 0 SET (Key 0)], 10 + int k))"

section \<open>Properties of the scheduler\<close>

subsection \<open>invalidateJob\<close>

lemma indexOf_ge: "indexOf xs x \<ge> -1"
  by (induction xs) (auto simp: Let_def)

lemma indexOf_notin: "x \<notin> set xs \<Longrightarrow> indexOf xs x = -1"
  by (induction xs) (auto simp: Let_def)

lemma indexOf_first:
  "i < length xs \<Longrightarrow> xs ! i = x \<Longrightarrow> \<forall>k<i. xs ! k \<noteq> x \<Longrightarrow> indexOf xs x = int i"
proof (induction xs arbitrary: i)
  case Nil
  then show ?case by simp
next
  case (Cons y ys)
  show ?case
  proof (cases i)
    case 0
    with Cons.prems show ?thesis by simp
  next
    case (Suc m)
    from Cons.prems Suc have ne: "y \<noteq> x" by auto
    from Cons.prems Suc have "m < length ys" "ys ! m = x" "\<forall>k<m. ys ! k \<noteq> x" by auto
    then have "indexOf ys x = int m" by (rule Cons.IH)
    with ne Suc show ?thesis by (simp add: Let_def)
  qed
qed

text \<open>
  Claim C8. \<^verbatim>\<open>invalidateJob(j)\<close> removes \<open>j\<close> from the queue exactly when the index
  of \<open>j\<close> (the first one, which \<^verbatim>\<open>indexOf\<close> finds) is greater than \<open>flushIndex\<close>:
  then the entry at that index is cut out and the rest of the queue stays. A job that is
  not queued, or whose index is \<open>flushIndex\<close> or less (the running job; the job at index
  \<open>0\<close> of an idle scheduler), leaves the whole state as it was.
\<close>

theorem invalidateJob_removes_only_after_flushIndex:
  "(jb \<notin> set (queue s) \<longrightarrow> invalidateJob jb s = s) \<and>
   (\<forall>i. i < length (queue s) \<and> queue s ! i = jb \<and> (\<forall>k<i. queue s ! k \<noteq> jb) \<longrightarrow>
      invalidateJob jb s =
        (if flushIndex s < i then s\<lparr>queue := take i (queue s) @ drop (Suc i) (queue s)\<rparr> else s))"
proof (intro conjI impI allI)
  assume "jb \<notin> set (queue s)"
  then have "indexOf (queue s) jb = -1" by (rule indexOf_notin)
  then show "invalidateJob jb s = s" by (simp add: invalidateJob_def)
next
  fix i
  assume "i < length (queue s) \<and> queue s ! i = jb \<and> (\<forall>k<i. queue s ! k \<noteq> jb)"
  then have "indexOf (queue s) jb = int i" by (simp add: indexOf_first)
  then show "invalidateJob jb s =
        (if flushIndex s < i then s\<lparr>queue := take i (queue s) @ drop (Suc i) (queue s)\<rparr> else s)"
    by (simp add: invalidateJob_def splice_remove_def)
qed

theorem invalidateJob_witness:
  "invalidateJob 4 three_sched = three_sched \<and>
   invalidateJob 1 three_sched = three_sched \<and>
   queue (invalidateJob 2 three_sched) = [1, 3]"
proof -
  note th = invalidateJob_removes_only_after_flushIndex
  have q: "queue three_sched = [1, 2, 3]" "flushIndex three_sched = 0"
    by (simp_all add: three_sched_def sched0_def)
  have "4 \<notin> set (queue three_sched)" by (simp add: q)
  with th [of 4 three_sched] have a: "invalidateJob 4 three_sched = three_sched" by blast
  have "0 < length (queue three_sched) \<and> queue three_sched ! 0 = 1 \<and> (\<forall>k<0. queue three_sched ! k \<noteq> 1)"
    by (simp add: q)
  with th [of 1 three_sched] have "invalidateJob 1 three_sched =
     (if flushIndex three_sched < 0 then three_sched\<lparr>queue := take 0 (queue three_sched) @ drop (Suc 0) (queue three_sched)\<rparr> else three_sched)"
    by blast
  then have b: "invalidateJob 1 three_sched = three_sched" by simp
  have "1 < length (queue three_sched) \<and> queue three_sched ! 1 = 2 \<and> (\<forall>k<1. queue three_sched ! k \<noteq> 2)"
    by (simp add: q)
  with th [of 2 three_sched] have "invalidateJob 2 three_sched =
     (if flushIndex three_sched < 1 then three_sched\<lparr>queue := take 1 (queue three_sched) @ drop (Suc 1) (queue three_sched)\<rparr> else three_sched)"
    by blast
  then have c: "queue (invalidateJob 2 three_sched) = [1, 3]"
    by (simp add: q)
  show ?thesis using a b c by simp
qed

subsection \<open>findInsertionIndex and queueJob\<close>

lemma findInsertionIndex_loop_partition:
  "start \<le> end' \<Longrightarrow> end' \<le> length (queue s) \<Longrightarrow>
   (\<forall>i j. start \<le> i \<and> i \<le> j \<and> j < end' \<and> goes_before ident (jobs s (queue s ! j))
       \<longrightarrow> goes_before ident (jobs s (queue s ! i))) \<Longrightarrow>
   start \<le> findInsertionIndex_loop s ident start end' \<and>
   findInsertionIndex_loop s ident start end' \<le> end' \<and>
   (\<forall>i. start \<le> i \<and> i < findInsertionIndex_loop s ident start end'
       \<longrightarrow> goes_before ident (jobs s (queue s ! i))) \<and>
   (\<forall>i. findInsertionIndex_loop s ident start end' \<le> i \<and> i < end'
       \<longrightarrow> \<not> goes_before ident (jobs s (queue s ! i)))"
proof (induction s ident start end' rule: findInsertionIndex_loop.induct)
  case (1 s ident start end')
  let ?P = "\<lambda>i. goes_before ident (jobs s (queue s ! i))"
  show ?case
  proof (cases "start < end'")
    case False
    then have "findInsertionIndex_loop s ident start end' = start"
      by (subst findInsertionIndex_loop.simps) simp
    with False "1.prems" show ?thesis by auto
  next
    case True
    define middle where "middle = (start + end') div 2"
    have mid: "start \<le> middle" "middle < end'" using True by (auto simp: middle_def)
    have mono: "\<And>i j. start \<le> i \<Longrightarrow> i \<le> j \<Longrightarrow> j < end' \<Longrightarrow> ?P j \<Longrightarrow> ?P i"
      using "1.prems"(3) by blast
    show ?thesis
    proof (cases "?P middle")
      case True
      have eq: "findInsertionIndex_loop s ident start end' = findInsertionIndex_loop s ident (middle + 1) end'"
        using \<open>start < end'\<close> True
        by (subst findInsertionIndex_loop.simps) (auto simp add: Let_def middle_def goes_before_def)
      have cond: "num_less (getId (jobs s (queue s ! middle))) (Num ident) \<or>
                  getId (jobs s (queue s ! middle)) = Num ident \<and> job_pre (jobs s (queue s ! middle))"
        using True by (simp add: goes_before_def)
      have IH: "middle + 1 \<le> findInsertionIndex_loop s ident (middle + 1) end' \<and>
         findInsertionIndex_loop s ident (middle + 1) end' \<le> end' \<and>
         (\<forall>i. middle + 1 \<le> i \<and> i < findInsertionIndex_loop s ident (middle + 1) end' \<longrightarrow> ?P i) \<and>
         (\<forall>i. findInsertionIndex_loop s ident (middle + 1) end' \<le> i \<and> i < end' \<longrightarrow> \<not> ?P i)"
      proof (rule "1.IH"(1) [OF \<open>start < end'\<close> middle_def refl refl cond])
        show "middle + 1 \<le> end'" using mid by simp
        show "end' \<le> length (queue s)" by (rule "1.prems"(2))
        show "\<forall>i j. middle + 1 \<le> i \<and> i \<le> j \<and> j < end' \<and> ?P j \<longrightarrow> ?P i"
          using mono mid by auto
      qed
      have low: "\<And>i. start \<le> i \<Longrightarrow> i \<le> middle \<Longrightarrow> ?P i"
        using mono [OF _ _ mid(2) True] by blast
      show ?thesis unfolding eq using IH mid low
        by (metis Suc_eq_plus1 Suc_leI le_trans linorder_not_less nat_le_linear not_less_eq_eq)
    next
      case False
      have eq: "findInsertionIndex_loop s ident start end' = findInsertionIndex_loop s ident start middle"
        using \<open>start < end'\<close> False
        by (subst findInsertionIndex_loop.simps) (auto simp add: Let_def middle_def goes_before_def)
      have cond: "\<not> (num_less (getId (jobs s (queue s ! middle))) (Num ident) \<or>
                  getId (jobs s (queue s ! middle)) = Num ident \<and> job_pre (jobs s (queue s ! middle)))"
        using False by (simp add: goes_before_def)
      have IH: "start \<le> findInsertionIndex_loop s ident start middle \<and>
         findInsertionIndex_loop s ident start middle \<le> middle \<and>
         (\<forall>i. start \<le> i \<and> i < findInsertionIndex_loop s ident start middle \<longrightarrow> ?P i) \<and>
         (\<forall>i. findInsertionIndex_loop s ident start middle \<le> i \<and> i < middle \<longrightarrow> \<not> ?P i)"
      proof (rule "1.IH"(2) [OF \<open>start < end'\<close> middle_def refl refl cond])
        show "start \<le> middle" using mid by simp
        show "middle \<le> length (queue s)" using mid "1.prems"(2) by simp
        show "\<forall>i j. start \<le> i \<and> i \<le> j \<and> j < middle \<and> ?P j \<longrightarrow> ?P i"
          using mono mid by auto
      qed
      have high: "\<And>i. middle \<le> i \<Longrightarrow> i < end' \<Longrightarrow> \<not> ?P i"
        using mono [OF mid(1)] False by blast
      show ?thesis unfolding eq using IH mid high
        by (metis le_trans less_imp_le_nat linorder_not_less)
    qed
  qed
qed

lemma num_less_trans: "num_less a b \<Longrightarrow> num_less b c \<Longrightarrow> num_less a c"
  by (cases a; cases b; cases c) auto

lemma num_less_linear: "num_less a b \<or> a = b \<or> num_less b a"
  by (cases a; cases b) auto

lemma num_less_irrefl: "\<not> num_less a a"
  by (cases a) auto

lemma goes_before_job_le:
  "job_le a b \<Longrightarrow> goes_before ident b \<Longrightarrow> goes_before ident a"
  unfolding job_le_def goes_before_def
  by (metis num_less_trans)

lemma goes_before_imp_job_le:
  "job_id jb = Some ident \<Longrightarrow> goes_before ident x \<Longrightarrow> job_le x jb"
  unfolding job_le_def goes_before_def getId_def by auto

lemma not_goes_before_imp_job_le:
  "job_id jb = Some ident \<Longrightarrow> \<not> goes_before ident y \<Longrightarrow> job_le jb y"
  unfolding job_le_def goes_before_def
  using num_less_linear [of "getId y" "Num ident"]
  by (auto simp: getId_def)

lemma window_sorted_mono:
  assumes ws: "window_sorted s"
    and ij: "flushIndex s + 1 \<le> i" "i \<le> j" "j < length (queue s)"
    and gb: "goes_before ident (jobs s (queue s ! j))"
  shows "goes_before ident (jobs s (queue s ! i))"
proof (cases "i = j")
  case True
  with gb show ?thesis by simp
next
  case False
  let ?w = "drop (flushIndex s + 1) (queue s)"
  let ?f = "flushIndex s + 1"
  from False ij have lt: "i - ?f < j - ?f" and len: "j - ?f < length ?w" by auto
  have "job_le (jobs s (?w ! (i - ?f))) (jobs s (?w ! (j - ?f)))"
    using ws lt len unfolding window_sorted_def by (simp only: sorted_wrt_iff_nth_less)
  moreover have "?w ! (i - ?f) = queue s ! i" "?w ! (j - ?f) = queue s ! j"
    using ij by auto
  ultimately have "job_le (jobs s (queue s ! i)) (jobs s (queue s ! j))" by simp
  then show ?thesis using gb by (rule goes_before_job_le)
qed

lemma findInsertionIndex_window:
  assumes ws: "window_sorted s"
  shows "flushIndex s < findInsertionIndex s ident \<and>
         (\<forall>i. flushIndex s < i \<and> i < findInsertionIndex s ident \<longrightarrow>
              i < length (queue s) \<and> goes_before ident (jobs s (queue s ! i))) \<and>
         (\<forall>i. findInsertionIndex s ident \<le> i \<and> i < length (queue s) \<longrightarrow>
              \<not> goes_before ident (jobs s (queue s ! i)))"
proof (cases "flushIndex s + 1 \<le> length (queue s)")
  case False
  then have "findInsertionIndex s ident = flushIndex s + 1"
    unfolding findInsertionIndex_def by (subst findInsertionIndex_loop.simps) simp
  with False show ?thesis by auto
next
  case True
  have mono: "\<forall>i j. flushIndex s + 1 \<le> i \<and> i \<le> j \<and> j < length (queue s) \<and>
        goes_before ident (jobs s (queue s ! j)) \<longrightarrow> goes_before ident (jobs s (queue s ! i))"
    using window_sorted_mono [OF ws] by blast
  from findInsertionIndex_loop_partition [OF True order_refl mono]
  show ?thesis unfolding findInsertionIndex_def by auto
qed

lemma sorted_wrt_insert_at:
  assumes "sorted_wrt R xs" "p \<le> length xs"
    and "\<forall>i<p. R (xs ! i) x" and "\<forall>i. p \<le> i \<and> i < length xs \<longrightarrow> R x (xs ! i)"
  shows "sorted_wrt R (take p xs @ x # drop p xs)"
proof -
  have "sorted_wrt R (take p xs @ drop p xs)" using assms(1) by simp
  then have a: "sorted_wrt R (take p xs)" and b: "sorted_wrt R (drop p xs)"
    and c: "\<forall>u\<in>set (take p xs). \<forall>v\<in>set (drop p xs). R u v"
    unfolding sorted_wrt_append by auto
  have d: "\<forall>u\<in>set (take p xs). R u x"
    using assms(2,3) by (auto simp: in_set_conv_nth)
  have e: "\<forall>v\<in>set (drop p xs). R x v"
  proof
    fix v assume "v \<in> set (drop p xs)"
    then obtain k where "k < length xs - p" "v = xs ! (p + k)"
      by (auto simp: in_set_conv_nth)
    then show "R x v" using assms(4) by auto
  qed
  show ?thesis using a b c d e by (auto simp: sorted_wrt_append)
qed

lemma queueJob_window_sorted:
  assumes ws: "window_sorted s" and ident: "job_id (jobs s jb) = Some ident"
  shows "window_sorted (s\<lparr>queue := splice_insert (queue s) (findInsertionIndex s ident) jb\<rparr>)"
proof -
  let ?p = "findInsertionIndex s ident" and ?f = "flushIndex s + 1"
  let ?w = "drop ?f (queue s)"
  let ?R = "\<lambda>x y. job_le (jobs s x) (jobs s y)"
  note fw = findInsertionIndex_window [OF ws, of ident]
  have pf: "?f \<le> ?p" using fw by simp
  show ?thesis
  proof (cases "?p \<le> length (queue s)")
    case True
    have split: "drop ?f (take ?p (queue s) @ jb # drop ?p (queue s))
        = take (?p - ?f) ?w @ jb # drop (?p - ?f) ?w"
      using True pf by (simp add: drop_take)
    have "sorted_wrt ?R (take (?p - ?f) ?w @ jb # drop (?p - ?f) ?w)"
    proof (rule sorted_wrt_insert_at)
      show "sorted_wrt ?R ?w" using ws by (simp add: window_sorted_def)
      show "?p - ?f \<le> length ?w" using True by simp
      show "\<forall>i<?p - ?f. job_le (jobs s (?w ! i)) (jobs s jb)"
      proof (intro allI impI)
        fix i assume i: "i < ?p - ?f"
        then have "flushIndex s < ?f + i \<and> ?f + i < ?p" by auto
        then have "goes_before ident (jobs s (queue s ! (?f + i)))" using fw by blast
        moreover have "?w ! i = queue s ! (?f + i)" using i True by simp
        ultimately show "job_le (jobs s (?w ! i)) (jobs s jb)"
          using goes_before_imp_job_le [OF ident] by simp
      qed
      show "\<forall>i. ?p - ?f \<le> i \<and> i < length ?w \<longrightarrow> job_le (jobs s jb) (jobs s (?w ! i))"
      proof (intro allI impI)
        fix i assume i: "?p - ?f \<le> i \<and> i < length ?w"
        then have "?p \<le> ?f + i \<and> ?f + i < length (queue s)" using pf by auto
        then have "\<not> goes_before ident (jobs s (queue s ! (?f + i)))" using fw by blast
        moreover have "?f \<le> length (queue s)" using i by auto
        then have "?w ! i = queue s ! (?f + i)" by (rule nth_drop)
        ultimately show "job_le (jobs s jb) (jobs s (?w ! i))"
          using not_goes_before_imp_job_le [OF ident] by simp
      qed
    qed
    then show ?thesis
      unfolding window_sorted_def splice_insert_def using split by simp
  next
    case False
    have "length (queue s) \<le> flushIndex s"
    proof (rule ccontr)
      assume "\<not> length (queue s) \<le> flushIndex s"
      then have "flushIndex s < length (queue s) \<and> length (queue s) < ?p" using False by simp
      then have "length (queue s) < length (queue s)" using fw by blast
      then show False by simp
    qed
    then show ?thesis
      unfolding window_sorted_def splice_insert_def by simp
  qed
qed

lemma queue_queueFlush [simp]: "queue (queueFlush s) = queue s"
  by (simp add: queueFlush_def)

lemma jobs_queueFlush [simp]: "jobs (queueFlush s) = jobs s"
  by (simp add: queueFlush_def)

lemma flushIndex_queueFlush [simp]: "flushIndex (queueFlush s) = flushIndex s"
  by (simp add: queueFlush_def)

lemma window_sorted_queueFlush [simp]: "window_sorted (queueFlush s) = window_sorted s"
  by (simp add: window_sorted_def)

lemma findInsertionIndex_loop_unfold:
  "findInsertionIndex_loop s ident start e =
     (if start < e then
        (if goes_before ident (jobs s (queue s ! ((start + e) div 2)))
         then findInsertionIndex_loop s ident ((start + e) div 2 + 1) e
         else findInsertionIndex_loop s ident start ((start + e) div 2))
      else start)"
  by (subst findInsertionIndex_loop.simps) (simp add: Let_def goes_before_def)

text \<open>
  Claim C5, as the code has it. \<^verbatim>\<open>queueJob(j)\<close> changes nothing when \<open>j\<close> is in the
  queue at or after the start of the window: \<open>flushIndex + 1\<close> while flushing a job with
  \<^verbatim>\<open>allowRecurse\<close>, \<open>flushIndex\<close> otherwise. Else a job without id goes to the tail, and
  a job with id \<open>ident\<close> is spliced in at \<^verbatim>\<open>findInsertionIndex(ident)\<close>. When the part
  of the queue after \<open>flushIndex\<close> is in order, that index lies after \<open>flushIndex\<close>, the
  entries between \<open>flushIndex\<close> and it have a smaller id, or the same id with \<^verbatim>\<open>pre\<close>,
  no entry from it on has, and that part of the queue is in order again. The job's own
  \<^verbatim>\<open>pre\<close> flag plays no role.
\<close>

theorem queueJob_dedup_and_position:
  "(jb \<in> set (drop (if isFlushing s \<and> job_allowRecurse (jobs s jb) then flushIndex s + 1 else flushIndex s)
                (queue s))
      \<longrightarrow> queueJob jb s = s) \<and>
   (jb \<notin> set (drop (if isFlushing s \<and> job_allowRecurse (jobs s jb) then flushIndex s + 1 else flushIndex s)
                (queue s)) \<longrightarrow>
      (job_id (jobs s jb) = None \<longrightarrow> queue (queueJob jb s) = queue s @ [jb]) \<and>
      (\<forall>ident. job_id (jobs s jb) = Some ident \<longrightarrow>
         queue (queueJob jb s) =
           take (findInsertionIndex s ident) (queue s) @ jb # drop (findInsertionIndex s ident) (queue s) \<and>
         (window_sorted s \<longrightarrow>
            flushIndex s < findInsertionIndex s ident \<and>
            (\<forall>i. flushIndex s < i \<and> i < findInsertionIndex s ident \<longrightarrow>
                 i < length (queue s) \<and> goes_before ident (jobs s (queue s ! i))) \<and>
            (\<forall>i. findInsertionIndex s ident \<le> i \<and> i < length (queue s) \<longrightarrow>
                 \<not> goes_before ident (jobs s (queue s ! i))) \<and>
            window_sorted (queueJob jb s))))"
proof (intro conjI impI allI)
  assume "jb \<in> set (drop (if isFlushing s \<and> job_allowRecurse (jobs s jb) then flushIndex s + 1 else flushIndex s) (queue s))"
  then show "queueJob jb s = s"
    by (auto simp: queueJob_def array_includes_def)
next
  assume "jb \<notin> set (drop (if isFlushing s \<and> job_allowRecurse (jobs s jb) then flushIndex s + 1 else flushIndex s) (queue s))"
    and "job_id (jobs s jb) = None"
  then show "queue (queueJob jb s) = queue s @ [jb]"
    by (simp add: queueJob_def array_includes_def)
next
  fix ident
  assume "jb \<notin> set (drop (if isFlushing s \<and> job_allowRecurse (jobs s jb) then flushIndex s + 1 else flushIndex s) (queue s))"
    and "job_id (jobs s jb) = Some ident"
  then show "queue (queueJob jb s) =
           take (findInsertionIndex s ident) (queue s) @ jb # drop (findInsertionIndex s ident) (queue s)"
    by (simp add: queueJob_def array_includes_def splice_insert_def)
next
  fix ident
  assume "window_sorted s"
  then show "flushIndex s < findInsertionIndex s ident"
    using findInsertionIndex_window by blast
next
  fix ident i
  assume "window_sorted s" "flushIndex s < i \<and> i < findInsertionIndex s ident"
  then show "i < length (queue s)" "goes_before ident (jobs s (queue s ! i))"
    using findInsertionIndex_window by blast+
next
  fix ident i
  assume "window_sorted s" "findInsertionIndex s ident \<le> i \<and> i < length (queue s)"
  then show "\<not> goes_before ident (jobs s (queue s ! i))"
    using findInsertionIndex_window by blast
next
  fix ident
  assume ni: "jb \<notin> set (drop (if isFlushing s \<and> job_allowRecurse (jobs s jb) then flushIndex s + 1 else flushIndex s) (queue s))"
    and ident: "job_id (jobs s jb) = Some ident" and ws: "window_sorted s"
  have "queueJob jb s = queueFlush (s\<lparr>queue := splice_insert (queue s) (findInsertionIndex s ident) jb\<rparr>)"
    using ni ident by (simp add: queueJob_def array_includes_def)
  then show "window_sorted (queueJob jb s)"
    using queueJob_window_sorted [OF ws ident] by simp
qed

theorem queueJob_dedup_and_position_witness:
  "window_sorted pre_sched \<and> queue (queueJob 2 pre_sched) = [0, 1, 2] \<and>
   window_sorted (queueJob 2 pre_sched) \<and> queueJob 1 pre_sched = pre_sched \<and>
   goes_before 1 (jobs pre_sched 1)"
proof -
  have ws: "window_sorted pre_sched"
    by (simp add: window_sorted_def pre_sched_def sched0_def)
  have fi: "findInsertionIndex pre_sched 1 = 2"
    by (simp add: pre_sched_def sched0_def job0_def
      getId_def findInsertionIndex_def findInsertionIndex_loop_unfold goes_before_def)
  have id2: "job_id (jobs pre_sched 2) = Some 1" by (simp add: pre_sched_def)
  have notin: "2 \<notin> set (drop (if isFlushing pre_sched \<and> job_allowRecurse (jobs pre_sched 2)
        then flushIndex pre_sched + 1 else flushIndex pre_sched) (queue pre_sched))"
    by (simp add: pre_sched_def sched0_def)
  have isin: "1 \<in> set (drop (if isFlushing pre_sched \<and> job_allowRecurse (jobs pre_sched 1)
        then flushIndex pre_sched + 1 else flushIndex pre_sched) (queue pre_sched))"
    by (simp add: pre_sched_def sched0_def job0_def)
  note th = queueJob_dedup_and_position [of 2 pre_sched]
  note th1 = queueJob_dedup_and_position [of 1 pre_sched]
  have a: "queue (queueJob 2 pre_sched) = [0, 1, 2]"
    using th notin id2 fi by (simp add: pre_sched_def sched0_def)
  have b: "window_sorted (queueJob 2 pre_sched)" using th notin id2 ws by blast
  have c: "queueJob 1 pre_sched = pre_sched" using th1 isin by blast
  have d: "goes_before 1 (jobs pre_sched 1)"
  proof -
    have "flushIndex pre_sched < 1 \<and> (1::nat) < findInsertionIndex pre_sched 1"
      by (simp add: fi) (simp add: pre_sched_def sched0_def)
    moreover have "queue pre_sched ! 1 = 1" by (simp add: pre_sched_def sched0_def)
    ultimately show ?thesis using th notin id2 ws by (metis)
  qed
  show ?thesis using ws a b c d by simp
qed

text \<open>
  Claim C5 as stated fails. While job \<open>0\<close> runs, job \<open>1\<close> (id \<open>1\<close>, \<^verbatim>\<open>pre\<close>) waits;
  job \<open>2\<close> (id \<open>1\<close>, \<^verbatim>\<open>pre\<close>) is put after it, at index \<open>2\<close>, where the first
  entry at or after its \<open>(id, pre)\<close> pair is at index \<open>1\<close>. And on an idle scheduler
  whose queue holds a job of id \<open>5\<close>, a job of id \<open>3\<close> is put behind it.
\<close>

theorem queueJob_position_counterexample:
  "spec_insertion_index pre_sched 2 = 1 \<and>
   findInsertionIndex pre_sched 1 = 2 \<and>
   queue (queueJob 2 pre_sched) = [0, 1, 2] \<and>
   queue (queueJob 1 idle_sched) = [0, 1] \<and>
   getId (jobs (queueJob 1 idle_sched) 0) = Num 5 \<and>
   getId (jobs (queueJob 1 idle_sched) 1) = Num 3"
  by (simp add: spec_insertion_index_def pre_sched_def idle_sched_def sched0_def job0_def
      job_le_def getId_def findInsertionIndex_def findInsertionIndex_loop_unfold goes_before_def queueJob_def
      array_includes_def splice_insert_def queueFlush_def)

subsection \<open>The order of a flush\<close>

text \<open>
  Claim C6 at a failing input: two queued jobs without id, the second with \<^verbatim>\<open>pre\<close>.
  The comparator yields \<^verbatim>\<open>NaN\<close>, the sort leaves the two as they are, and the flush
  calls the job without \<^verbatim>\<open>pre\<close> first.
\<close>

theorem flushJobs_null_id_pre_runs_last:
  "job_id (jobs null_id_sched 0) = None \<and> job_id (jobs null_id_sched 1) = None \<and>
   \<not> job_pre (jobs null_id_sched 0) \<and> job_pre (jobs null_id_sched 1) \<and>
   comparator (jobs null_id_sched 0) (jobs null_id_sched 1) = NaN \<and>
   array_sort (\<lambda>a b. comparator (jobs null_id_sched a) (jobs null_id_sched b)) (queue null_id_sched) = [0, 1] \<and>
   map_option (\<lambda>r. invoked (snd r)) (flushJobs True (\<lambda>jb s. s) 4 (Map.empty, null_id_sched)) = Some [0, 1]"
  by (simp add: null_id_sched_def sched0_def job0_def comparator_def getId_def
      eval_nat_numeral flushJobs_iter_def checkRecursiveUpdates_def callWithErrorHandling_def
      call_job_def flushPostFlushCbs_def Let_def)

subsection \<open>The recursion limit\<close>







lemma array_sort_single [simp]: "array_sort cmp [x] = [x]"
  by simp


lemma flushPostFlushCbs_none_pending:
  "pendingPostFlushCbs (snd st) = [] \<Longrightarrow> flushPostFlushCbs dev body n st = Some st"
  by (cases st) (simp add: flushPostFlushCbs_def)

















lemma nth_splice_insert: "i < p \<Longrightarrow> p \<le> length q \<Longrightarrow> splice_insert q p x ! i = q ! i"
  by (simp add: splice_insert_def nth_append)




lemma count_of_upd [simp]:
  "count_of (seen(j \<mapsto> c)) j' = (if j' = j then c else count_of seen j')"
  by (simp add: count_of_def)




















section \<open>Properties of traverse\<close>

lemma traverse_fst: "fst (traverse h v depth seen) = v"
  by (subst traverse.simps) simp

lemma traverse_stops:
  "depth = 0 \<or> \<not> isObject h v \<or> has_skip h v \<or> addr_of v \<in> set seen \<Longrightarrow>
   traverse h v depth seen = (v, seen)"
  by (subst traverse.simps) auto

lemma traverse_extends_seen:
  "\<exists>visited. snd (traverse h v depth seen) = seen @ visited \<and>
      (distinct seen \<longrightarrow> distinct (seen @ visited))"
  "\<exists>visited. traverse_each h vs depth seen = seen @ visited \<and>
      (distinct seen \<longrightarrow> distinct (seen @ visited))"
proof (induction h v depth seen and h vs depth seen rule: traverse_traverse_each.induct)
  case (1 h v depth seen)
  show ?case
  proof (cases "depth \<le> 0 \<or> \<not> isObject h v \<or> has_skip h v \<or> addr_of v \<in> set seen")
    case True
    then have "traverse h v depth seen = (v, seen)" by (subst traverse.simps) auto
    then show ?thesis by simp
  next
    case False
    then have c: "\<not> (depth \<le> 0 \<or> \<not> isObject h v \<or> has_skip h v)" "addr_of v \<notin> set seen"
      by auto
    let ?seen1 = "seen @ [addr_of v]"
    have d1: "distinct seen \<longrightarrow> distinct ?seen1" using c(2) by simp
    have ext: "\<And>r. \<exists>visited. r = ?seen1 @ visited \<and> (distinct ?seen1 \<longrightarrow> distinct (?seen1 @ visited))
        \<Longrightarrow> \<exists>visited. r = seen @ visited \<and> (distinct seen \<longrightarrow> distinct (seen @ visited))"
      using d1 by (metis append.assoc)
    show ?thesis
    proof (cases "shape (h ! addr_of v)")
      case (RefObj x)
      have "snd (traverse h v depth seen) = snd (traverse h x (depth - 1) ?seen1)"
        using c RefObj by (subst traverse.simps) simp
      with "1.IH"(1) [OF c RefObj] ext show ?thesis by simp
    next
      case (ArrayObj xs)
      have "snd (traverse h v depth seen) = traverse_each h xs (depth - 1) ?seen1"
        using c ArrayObj by (subst traverse.simps) simp
      with "1.IH"(2) [OF c ArrayObj] ext show ?thesis by simp
    next
      case (SetObj xs)
      have "snd (traverse h v depth seen) = traverse_each h xs (depth - 1) ?seen1"
        using c SetObj by (subst traverse.simps) simp
      with "1.IH"(3) [OF c SetObj] ext show ?thesis by simp
    next
      case (MapObj kvs)
      have "snd (traverse h v depth seen) = traverse_each h (map snd kvs) (depth - 1) ?seen1"
        using c MapObj by (subst traverse.simps) simp
      with "1.IH"(4) [OF c MapObj] ext show ?thesis by simp
    next
      case (PlainObj props syms)
      let ?mid = "traverse_each h props (depth - 1) ?seen1"
      have eq: "snd (traverse h v depth seen) =
          traverse_each h (map snd (filter fst syms)) (depth - 1) ?mid"
        using c PlainObj by (subst traverse.simps) simp
      from "1.IH"(5) [OF c PlainObj] obtain ys where
        ys: "?mid = ?seen1 @ ys" "distinct ?seen1 \<longrightarrow> distinct (?seen1 @ ys)" by blast
      from "1.IH"(6) [OF c PlainObj] obtain zs where
        zs: "traverse_each h (map snd (filter fst syms)) (depth - 1) ?mid = ?mid @ zs"
          "distinct ?mid \<longrightarrow> distinct (?mid @ zs)" by blast
      have "\<exists>visited. snd (traverse h v depth seen) = ?seen1 @ visited \<and>
          (distinct ?seen1 \<longrightarrow> distinct (?seen1 @ visited))"
        using eq ys zs by (intro exI [of _ "ys @ zs"]) simp
      then show ?thesis by (rule ext)
    next
      case OtherObj
      have "snd (traverse h v depth seen) = ?seen1"
        using c OtherObj by (subst traverse.simps) simp
      then show ?thesis using d1 by simp
    qed
  qed
next
  case (2 h depth seen)
  show ?case by simp
next
  case (3 h x xs depth seen)
  from "3.IH"(1) obtain ys where
    ys: "snd (traverse h x depth seen) = seen @ ys" "distinct seen \<longrightarrow> distinct (seen @ ys)"
    by blast
  from "3.IH"(2) obtain zs where
    zs: "traverse_each h xs depth (snd (traverse h x depth seen)) = snd (traverse h x depth seen) @ zs"
      "distinct (snd (traverse h x depth seen)) \<longrightarrow> distinct (snd (traverse h x depth seen) @ zs)"
    by blast
  show ?case using ys zs by (intro exI [of _ "ys @ zs"]) simp
qed


text \<open>
  Claim C9. \<^verbatim>\<open>traverse\<close> is a total function on every heap, with cycles or without
  (its termination is proved with its definition). It returns the value it was given.
  It only adds to \<open>seen\<close>, and adds no object twice: each object is entered at most
  once. It stops at once, leaving \<open>seen\<close> as it is, when the depth is \<open>0\<close>, on a value
  that is not an object, on an object with the skip marker and on an object in \<open>seen\<close>.
\<close>

theorem traverse_returns_value:
  "fst (traverse h v depth seen) = v \<and>
   (\<exists>visited. snd (traverse h v depth seen) = seen @ visited \<and>
       (distinct seen \<longrightarrow> distinct (seen @ visited))) \<and>
   (depth = 0 \<or> \<not> isObject h v \<or> has_skip h v \<or> addr_of v \<in> set seen \<longrightarrow>
       traverse h v depth seen = (v, seen))"
  using traverse_fst traverse_extends_seen(1) traverse_stops by blast


theorem traverse_returns_value_witness:
  "traverse cyclic_heap (Obj 0) \<infinity> [] = (Obj 0, [0, 1, 2]) \<and>
   traverse cyclic_heap (Obj 0) 1 [] = (Obj 0, [0]) \<and>
   traverse cyclic_heap (Obj 3) \<infinity> [] = (Obj 3, []) \<and>
   distinct (snd (traverse cyclic_heap (Obj 0) \<infinity> []))"
proof -
  have a: "traverse cyclic_heap (Obj 0) \<infinity> [] = (Obj 0, [0, 1, 2])"
    by (simp add: traverse.simps cyclic_heap_def)
  have b: "traverse cyclic_heap (Obj 0) 1 [] = (Obj 0, [0])"
    by (simp add: traverse.simps cyclic_heap_def)
  have c: "traverse cyclic_heap (Obj 3) \<infinity> [] = (Obj 3, [])"
    using traverse_returns_value [of cyclic_heap "Obj 3" \<infinity> "[]"]
    by (simp add: cyclic_heap_def)
  show ?thesis using a b c by simp
qed

section \<open>Properties of the dependency graph\<close>

subsection \<open>What each step leaves unchanged\<close>

lemma effects_upd_effect [simp]: "effects (upd_effect e f w) = (effects w)(e := f (effects w e))"
  by (simp add: upd_effect_def)

lemma upd_effect_other [simp]:
  "dep_store (upd_effect e f w) = dep_store w"
  "next_dep (upd_effect e f w) = next_dep w"
  "targetMap (upd_effect e f w) = targetMap w"
  "computeds (upd_effect e f w) = computeds w"
  "activeEffect (upd_effect e f w) = activeEffect w"
  "shouldTrack (upd_effect e f w) = shouldTrack w"
  "cleanups (upd_effect e f w) = cleanups w"
  "onStop_calls (upd_effect e f w) = onStop_calls w"
  by (simp_all add: upd_effect_def)

lemma dep_store_upd_dep [simp]: "dep_store (upd_dep d f w) = (dep_store w)(d := f (dep_store w d))"
  by (simp add: upd_dep_def)

lemma upd_dep_other [simp]:
  "effects (upd_dep d f w) = effects w"
  "next_dep (upd_dep d f w) = next_dep w"
  "targetMap (upd_dep d f w) = targetMap w"
  "computeds (upd_dep d f w) = computeds w"
  "activeEffect (upd_dep d f w) = activeEffect w"
  "shouldTrack (upd_dep d f w) = shouldTrack w"
  "cleanups (upd_dep d f w) = cleanups w"
  "onStop_calls (upd_dep d f w) = onStop_calls w"
  by (simp_all add: upd_dep_def)

lemma dep_cleanup_frame [simp]:
  "effects (dep_cleanup d w) = effects w"
  "dep_store (dep_cleanup d w) = dep_store w"
  "next_dep (dep_cleanup d w) = next_dep w"
  "activeEffect (dep_cleanup d w) = activeEffect w"
  "shouldTrack (dep_cleanup d w) = shouldTrack w"
  "onStop_calls (dep_cleanup d w) = onStop_calls w"
  "cleanups (dep_cleanup d w) = cleanups w @ [d]"
  by (simp_all add: dep_cleanup_def Let_def split: cleanup.splits option.splits)

lemma cleanupDepEffect_frame [simp]:
  "effects (cleanupDepEffect d e w) = effects w"
  "next_dep (cleanupDepEffect d e w) = next_dep w"
  "activeEffect (cleanupDepEffect d e w) = activeEffect w"
  "shouldTrack (cleanupDepEffect d e w) = shouldTrack w"
  "onStop_calls (cleanupDepEffect d e w) = onStop_calls w"
  by (simp_all add: cleanupDepEffect_def dep_delete_def Let_def split: option.splits)

lemma fold_cleanupDepEffect_frame [simp]:
  "effects (fold (\<lambda>d. cleanupDepEffect d e) ds w) = effects w"
  "next_dep (fold (\<lambda>d. cleanupDepEffect d e) ds w) = next_dep w"
  "activeEffect (fold (\<lambda>d. cleanupDepEffect d e) ds w) = activeEffect w"
  "shouldTrack (fold (\<lambda>d. cleanupDepEffect d e) ds w) = shouldTrack w"
  "onStop_calls (fold (\<lambda>d. cleanupDepEffect d e) ds w) = onStop_calls w"
  by (induction ds arbitrary: w; simp)+

lemma postCleanupEffect_frame [simp]:
  "next_dep (postCleanupEffect e w) = next_dep w"
  "activeEffect (postCleanupEffect e w) = activeEffect w"
  "shouldTrack (postCleanupEffect e w) = shouldTrack w"
  "onStop_calls (postCleanupEffect e w) = onStop_calls w"
  by (simp_all add: postCleanupEffect_def Let_def)

lemma effects_postCleanupEffect:
  "effects (postCleanupEffect e w) =
     (effects w)(e := (effects w e)\<lparr>deps := take (depsLength (effects w e)) (deps (effects w e))\<rparr>)"
  by (auto simp: postCleanupEffect_def Let_def fun_eq_iff)

lemma preCleanupEffect_frame [simp]:
  "dep_store (preCleanupEffect e w) = dep_store w"
  "next_dep (preCleanupEffect e w) = next_dep w"
  "targetMap (preCleanupEffect e w) = targetMap w"
  "computeds (preCleanupEffect e w) = computeds w"
  "activeEffect (preCleanupEffect e w) = activeEffect w"
  "shouldTrack (preCleanupEffect e w) = shouldTrack w"
  "cleanups (preCleanupEffect e w) = cleanups w"
  "onStop_calls (preCleanupEffect e w) = onStop_calls w"
  "effects (preCleanupEffect e w) =
     (effects w)(e := (effects w e)\<lparr>trackId := trackId (effects w e) + 1, depsLength := 0\<rparr>)"
  by (simp_all add: preCleanupEffect_def)

subsection \<open>stop\<close>

lemma stop_inactive: "\<not> active (effects w e) \<Longrightarrow> stop e w = w"
  by (simp add: stop_def)

lemma stop_makes_inactive: "\<not> active (effects (stop e w) e)"
  by (simp add: stop_def Let_def)

lemma stop_funpow: "(stop e ^^ Suc n) w = stop e w"
proof (induction n)
  case 0
  show ?case by simp
next
  case (Suc n)
  have "(stop e ^^ Suc (Suc n)) w = stop e ((stop e ^^ Suc n) w)" by simp
  also have "\<dots> = stop e (stop e w)" by (simp only: Suc.IH)
  also have "\<dots> = stop e w" using stop_makes_inactive by (rule stop_inactive)
  finally show ?case .
qed

lemma onStop_calls_stop:
  "onStop_calls (stop e w) =
     (if active (effects w e) \<and> onStop (effects w e) then onStop_calls w @ [e] else onStop_calls w)"
  by (simp add: stop_def Let_def effects_postCleanupEffect)

text \<open>
  Claim C10. A second call of \<^verbatim>\<open>stop()\<close> changes nothing at all, and so does every
  further one: the effect is inactive after the first call, and \<^verbatim>\<open>stop\<close> on an
  inactive effect returns the state as it is (\<^verbatim>\<open>deps\<close>, the deps and the target map
  with it). Over any number of calls, \<^verbatim>\<open>onStop\<close> is called at most once.
\<close>

theorem stop_idempotent:
  "stop e (stop e w) = stop e w \<and>
   \<not> active (effects (stop e w) e) \<and>
   (stop e ^^ Suc n) w = stop e w \<and>
   count_list (onStop_calls ((stop e ^^ n) w)) e \<le> count_list (onStop_calls w) e + 1"
proof -
  have a: "stop e (stop e w) = stop e w" using stop_makes_inactive by (rule stop_inactive)
  have c: "count_list (onStop_calls ((stop e ^^ n) w)) e \<le> count_list (onStop_calls w) e + 1"
  proof (cases n)
    case 0
    then show ?thesis by simp
  next
    case (Suc m)
    then show ?thesis by (simp only: stop_funpow) (simp add: onStop_calls_stop)
  qed
  show ?thesis using a c stop_makes_inactive stop_funpow by blast
qed

lemma registry_okI:
  assumes "\<And>t m k d. targetMap w t = Some m \<Longrightarrow> m k = Some d \<Longrightarrow>
          d < next_dep w \<and> cleanup (dep_store w d) = DeleteKey t k \<and> entries (dep_store w d) \<noteq> []"
    and "\<And>d t k. entries (dep_store w d) \<noteq> [] \<Longrightarrow> cleanup (dep_store w d) = DeleteKey t k \<Longrightarrow>
          (\<exists>m. targetMap w t = Some m \<and> m k = Some d)"
    and "\<And>d. next_dep w \<le> d \<Longrightarrow> entries (dep_store w d) = []"
  shows "registry_ok w"
  unfolding registry_ok_def using assms by blast

lemma registry_okD1:
  "registry_ok w \<Longrightarrow> targetMap w t = Some m \<Longrightarrow> m k = Some d \<Longrightarrow>
     d < next_dep w \<and> cleanup (dep_store w d) = DeleteKey t k \<and> entries (dep_store w d) \<noteq> []"
  unfolding registry_ok_def by blast

lemma registry_okD2:
  "registry_ok w \<Longrightarrow> entries (dep_store w d) \<noteq> [] \<Longrightarrow> cleanup (dep_store w d) = DeleteKey t k \<Longrightarrow>
     \<exists>m. targetMap w t = Some m \<and> m k = Some d"
  unfolding registry_ok_def by blast

lemma registry_okD3:
  "registry_ok w \<Longrightarrow> next_dep w \<le> d \<Longrightarrow> entries (dep_store w d) = []"
  unfolding registry_ok_def by blast

lemma registry_ok_upd_effect [simp]: "registry_ok (upd_effect e f w) = registry_ok w"
  by (simp add: registry_ok_def)

lemma registry_ok_cong:
  "targetMap w' = targetMap w \<Longrightarrow> dep_store w' = dep_store w \<Longrightarrow> next_dep w' = next_dep w \<Longrightarrow>
   registry_ok w' = registry_ok w"
  by (simp add: registry_ok_def)

text \<open>Removing an effect from a dep that stays inhabited.\<close>

lemma registry_ok_dep_delete_nonempty:
  assumes "registry_ok w" "AList.delete e (entries (dep_store w d)) \<noteq> []"
  shows "registry_ok (dep_delete d e w)"
proof (rule registry_okI)
  fix t m k d'
  assume "targetMap (dep_delete d e w) t = Some m" "m k = Some d'"
  then have "targetMap w t = Some m" "m k = Some d'" by (simp_all add: dep_delete_def)
  from registry_okD1 [OF assms(1) this] assms(2)
  show "d' < next_dep (dep_delete d e w) \<and>
        cleanup (dep_store (dep_delete d e w) d') = DeleteKey t k \<and>
        entries (dep_store (dep_delete d e w) d') \<noteq> []"
    by (auto simp: dep_delete_def)
next
  fix d' t k
  assume "entries (dep_store (dep_delete d e w) d') \<noteq> []"
    "cleanup (dep_store (dep_delete d e w) d') = DeleteKey t k"
  then have "entries (dep_store w d') \<noteq> []" "cleanup (dep_store w d') = DeleteKey t k"
    by (auto simp: dep_delete_def split: if_splits)
  from registry_okD2 [OF assms(1) this]
  show "\<exists>m. targetMap (dep_delete d e w) t = Some m \<and> m k = Some d'"
    by (auto simp: dep_delete_def)
next
  fix d'
  assume "next_dep (dep_delete d e w) \<le> d'"
  then have "entries (dep_store w d') = []" using registry_okD3 [OF assms(1)] by (simp add: dep_delete_def)
  then show "entries (dep_store (dep_delete d e w) d') = []" by (auto simp: dep_delete_def)
qed

text \<open>Removing the last effect of a dep, and calling its cleanup.\<close>

lemma registry_ok_dep_delete_last:
  assumes ok: "registry_ok w" and ne: "entries (dep_store w d) \<noteq> []"
    and last: "AList.delete e (entries (dep_store w d)) = []"
  shows "registry_ok (dep_cleanup d (dep_delete d e w))"
proof (cases "cleanup (dep_store w d)")
  case (ClearRefDep c)
  have notreg: "\<And>t m k. targetMap w t = Some m \<Longrightarrow> m k \<noteq> Some d"
    using registry_okD1 [OF ok] ClearRefDep by fastforce
  have tm: "targetMap (dep_cleanup d (dep_delete d e w)) = targetMap w"
    using ClearRefDep by (simp add: dep_cleanup_def dep_delete_def Let_def)
  show ?thesis
  proof (rule registry_okI)
    fix t m k d'
    assume "targetMap (dep_cleanup d (dep_delete d e w)) t = Some m" "m k = Some d'"
    then have r: "targetMap w t = Some m" "m k = Some d'" by (simp_all add: tm)
    then have "d' \<noteq> d" using notreg by blast
    with registry_okD1 [OF ok r]
    show "d' < next_dep (dep_cleanup d (dep_delete d e w)) \<and>
        cleanup (dep_store (dep_cleanup d (dep_delete d e w)) d') = DeleteKey t k \<and>
        entries (dep_store (dep_cleanup d (dep_delete d e w)) d') \<noteq> []"
      by (auto simp: dep_delete_def)
  next
    fix d' t k
    assume "entries (dep_store (dep_cleanup d (dep_delete d e w)) d') \<noteq> []"
      "cleanup (dep_store (dep_cleanup d (dep_delete d e w)) d') = DeleteKey t k"
    then have "entries (dep_store w d') \<noteq> []" "cleanup (dep_store w d') = DeleteKey t k"
      using last by (auto simp: dep_delete_def split: if_splits)
    from registry_okD2 [OF ok this]
    show "\<exists>m. targetMap (dep_cleanup d (dep_delete d e w)) t = Some m \<and> m k = Some d'"
      by (simp add: tm)
  next
    fix d'
    assume "next_dep (dep_cleanup d (dep_delete d e w)) \<le> d'"
    then have "entries (dep_store w d') = []"
      using registry_okD3 [OF ok] by (simp add: dep_delete_def)
    then show "entries (dep_store (dep_cleanup d (dep_delete d e w)) d') = []"
      by (auto simp: dep_delete_def)
  qed
next
  case (DeleteKey t0 k0)
  from registry_okD2 [OF ok ne DeleteKey] obtain m0 where
    m0: "targetMap w t0 = Some m0" "m0 k0 = Some d" by blast
  have tm: "targetMap (dep_cleanup d (dep_delete d e w)) = (targetMap w)(t0 := Some (m0(k0 := None)))"
    using DeleteKey m0 by (simp add: dep_cleanup_def dep_delete_def Let_def)
  show ?thesis
  proof (rule registry_okI)
    fix t m k d'
    assume a: "targetMap (dep_cleanup d (dep_delete d e w)) t = Some m" "m k = Some d'"
    have "\<exists>m'. targetMap w t = Some m' \<and> m' k = Some d' \<and> (t, k) \<noteq> (t0, k0)"
      using a m0 unfolding tm by (auto split: if_splits)
    then obtain m' where r: "targetMap w t = Some m'" "m' k = Some d'" and nk: "(t, k) \<noteq> (t0, k0)"
      by blast
    from registry_okD1 [OF ok r] have p: "d' < next_dep w" "cleanup (dep_store w d') = DeleteKey t k"
      "entries (dep_store w d') \<noteq> []" by auto
    have "d' \<noteq> d" using p(2) DeleteKey nk by auto
    with p show "d' < next_dep (dep_cleanup d (dep_delete d e w)) \<and>
        cleanup (dep_store (dep_cleanup d (dep_delete d e w)) d') = DeleteKey t k \<and>
        entries (dep_store (dep_cleanup d (dep_delete d e w)) d') \<noteq> []"
      by (auto simp: dep_delete_def)
  next
    fix d' t k
    assume a: "entries (dep_store (dep_cleanup d (dep_delete d e w)) d') \<noteq> []"
      "cleanup (dep_store (dep_cleanup d (dep_delete d e w)) d') = DeleteKey t k"
    then have nd: "d' \<noteq> d" using last by (auto simp: dep_delete_def)
    with a have p: "entries (dep_store w d') \<noteq> []" "cleanup (dep_store w d') = DeleteKey t k"
      by (auto simp: dep_delete_def)
    from registry_okD2 [OF ok p] obtain m where m: "targetMap w t = Some m" "m k = Some d'" by blast
    have "(t, k) \<noteq> (t0, k0)" using m m0 nd by auto
    then show "\<exists>m. targetMap (dep_cleanup d (dep_delete d e w)) t = Some m \<and> m k = Some d'"
      unfolding tm using m m0 by auto
  next
    fix d'
    assume "next_dep (dep_cleanup d (dep_delete d e w)) \<le> d'"
    then have "entries (dep_store w d') = []"
      using registry_okD3 [OF ok] by (simp add: dep_delete_def)
    then show "entries (dep_store (dep_cleanup d (dep_delete d e w)) d') = []"
      by (auto simp: dep_delete_def)
  qed
qed

lemma map_of_Some_nonempty: "map_of xs k = Some v \<Longrightarrow> xs \<noteq> []"
  by auto

lemma registry_ok_cleanupDepEffect:
  assumes "registry_ok w"
  shows "registry_ok (cleanupDepEffect d e w)"
proof (cases "dep_get w d e")
  case None
  then show ?thesis using assms by (simp add: cleanupDepEffect_def)
next
  case (Some tid)
  then have ne: "entries (dep_store w d) \<noteq> []"
    unfolding dep_get_def by (rule map_of_Some_nonempty)
  show ?thesis
  proof (cases "trackId (effects w e) \<noteq> tid")
    case False
    then show ?thesis using assms Some by (simp add: cleanupDepEffect_def)
  next
    case True
    show ?thesis
    proof (cases "AList.delete e (entries (dep_store w d)) = []")
      case True
      then have "dep_size (dep_delete d e w) d = 0" by (simp add: dep_size_def dep_delete_def)
      then have "cleanupDepEffect d e w = dep_cleanup d (dep_delete d e w)"
        using Some \<open>trackId (effects w e) \<noteq> tid\<close> by (simp add: cleanupDepEffect_def Let_def)
      then show ?thesis using registry_ok_dep_delete_last [OF assms ne True] by simp
    next
      case False
      then have "dep_size (dep_delete d e w) d \<noteq> 0" by (simp add: dep_size_def dep_delete_def)
      then have "cleanupDepEffect d e w = dep_delete d e w"
        using Some \<open>trackId (effects w e) \<noteq> tid\<close> by (simp add: cleanupDepEffect_def Let_def)
      then show ?thesis using registry_ok_dep_delete_nonempty [OF assms False] by simp
    qed
  qed
qed

lemma registry_ok_fold_cleanupDepEffect:
  "registry_ok w \<Longrightarrow> registry_ok (fold (\<lambda>d. cleanupDepEffect d e) ds w)"
  by (induction ds arbitrary: w) (simp_all add: registry_ok_cleanupDepEffect)

lemma registry_ok_postCleanupEffect:
  "registry_ok w \<Longrightarrow> registry_ok (postCleanupEffect e w)"
  by (simp add: postCleanupEffect_def Let_def registry_ok_fold_cleanupDepEffect)

lemma registry_ok_preCleanupEffect [simp]:
  "registry_ok (preCleanupEffect e w) = registry_ok w"
  by (simp add: preCleanupEffect_def)

lemma update_nonempty [simp]: "AList.update k v xs \<noteq> []"
  by (cases xs) auto

lemma registry_ok_dep_set:
  assumes ok: "registry_ok w" and ne: "entries (dep_store w d) \<noteq> []"
  shows "registry_ok (dep_set d e v w)"
proof (rule registry_okI)
  fix t m k d'
  assume "targetMap (dep_set d e v w) t = Some m" "m k = Some d'"
  then have "targetMap w t = Some m" "m k = Some d'" by (simp_all add: dep_set_def)
  from registry_okD1 [OF ok this]
  show "d' < next_dep (dep_set d e v w) \<and>
        cleanup (dep_store (dep_set d e v w) d') = DeleteKey t k \<and>
        entries (dep_store (dep_set d e v w) d') \<noteq> []"
    by (auto simp: dep_set_def)
next
  fix d' t k
  assume "entries (dep_store (dep_set d e v w) d') \<noteq> []"
    "cleanup (dep_store (dep_set d e v w) d') = DeleteKey t k"
  then have "entries (dep_store w d') \<noteq> []" "cleanup (dep_store w d') = DeleteKey t k"
    using ne by (auto simp: dep_set_def split: if_splits)
  from registry_okD2 [OF ok this]
  show "\<exists>m. targetMap (dep_set d e v w) t = Some m \<and> m k = Some d'"
    by (simp add: dep_set_def)
next
  fix d'
  assume "next_dep (dep_set d e v w) \<le> d'"
  then have a: "entries (dep_store w d') = []" using registry_okD3 [OF ok] by (simp add: dep_set_def)
  then have "d' \<noteq> d" using ne by auto
  then show "entries (dep_store (dep_set d e v w) d') = []" using a by (simp add: dep_set_def)
qed

lemma registry_ok_new_dep:
  assumes ok: "registry_ok w"
    and m: "targetMap w t = Some m \<or> (targetMap w t = None \<and> m = Map.empty)" and k: "m k = None"
  shows "registry_ok (dep_set (next_dep w) e v
           (w\<lparr>dep_store := (dep_store w)(next_dep w := \<lparr>entries = [], cleanup = DeleteKey t k, dep_computed = None\<rparr>),
              next_dep := next_dep w + 1,
              targetMap := (targetMap w)(t := Some (m(k \<mapsto> next_dep w)))\<rparr>))"
    (is "registry_ok ?w'")
proof (rule registry_okI)
  fix t' m' k' d'
  assume a: "targetMap ?w' t' = Some m'" "m' k' = Some d'"
  show "d' < next_dep ?w' \<and> cleanup (dep_store ?w' d') = DeleteKey t' k' \<and> entries (dep_store ?w' d') \<noteq> []"
  proof (cases "t' = t \<and> k' = k")
    case True
    with a have "d' = next_dep w" by (auto simp: dep_set_def)
    with True show ?thesis by (simp add: dep_set_def)
  next
    case False
    with a m have "\<exists>m0. targetMap w t' = Some m0 \<and> m0 k' = Some d'"
      by (auto simp: dep_set_def split: if_splits)
    then obtain m0 where "targetMap w t' = Some m0" "m0 k' = Some d'" by blast
    from registry_okD1 [OF ok this] show ?thesis by (auto simp: dep_set_def)
  qed
next
  fix d' t' k'
  assume a: "entries (dep_store ?w' d') \<noteq> []" "cleanup (dep_store ?w' d') = DeleteKey t' k'"
  show "\<exists>m'. targetMap ?w' t' = Some m' \<and> m' k' = Some d'"
  proof (cases "d' = next_dep w")
    case True
    with a show ?thesis by (auto simp: dep_set_def)
  next
    case False
    with a have p: "entries (dep_store w d') \<noteq> []" "cleanup (dep_store w d') = DeleteKey t' k'"
      by (auto simp: dep_set_def)
    from registry_okD2 [OF ok p] obtain m0 where m0: "targetMap w t' = Some m0" "m0 k' = Some d'"
      by blast
    with m k have "\<not> (t' = t \<and> k' = k)" by auto
    then show ?thesis using m0 m by (auto simp: dep_set_def)
  qed
next
  fix d'
  assume "next_dep ?w' \<le> d'"
  then have "next_dep w < d'" by (simp add: dep_set_def)
  then show "entries (dep_store ?w' d') = []"
    using registry_okD3 [OF ok, of d'] by (simp add: dep_set_def)
qed

lemma registry_ok_trackEffect:
  assumes "registry_ok w" "registry_ok (dep_set d e (trackId (effects w e)) w)"
  shows "registry_ok (trackEffect e d w)"
  using assms
  by (auto simp: trackEffect_def Let_def registry_ok_cleanupDepEffect split: option.splits)

lemma registry_ok_track:
  assumes ok: "registry_ok w"
  shows "registry_ok (track t k w)"
proof (cases "activeEffect w")
  case None
  then show ?thesis using ok by (simp add: track_def)
next
  case (Some e)
  show ?thesis
  proof (cases "shouldTrack w")
    case False
    then show ?thesis using ok Some by (simp add: track_def)
  next
    case True
    define m where "m = (case targetMap w t of None \<Rightarrow> Map.empty | Some m \<Rightarrow> m)"
    define w1 where "w1 = (case targetMap w t of
                         None \<Rightarrow> w\<lparr>targetMap := (targetMap w)(t := Some Map.empty)\<rparr>
                       | Some depsMap \<Rightarrow> w)"
    have w1m: "targetMap w1 t = Some m" by (auto simp: w1_def m_def split: option.splits)
    have ok1: "registry_ok w1"
    proof (cases "targetMap w t")
      case None
      have "registry_ok (w\<lparr>targetMap := (targetMap w)(t := Some Map.empty)\<rparr>)"
      proof (rule registry_okI)
        fix t' m' k' d'
        assume "targetMap (w\<lparr>targetMap := (targetMap w)(t := Some Map.empty)\<rparr>) t' = Some m'" "m' k' = Some d'"
        then have "targetMap w t' = Some m'" "m' k' = Some d'" by (auto split: if_splits)
        from registry_okD1 [OF ok this]
        show "d' < next_dep (w\<lparr>targetMap := (targetMap w)(t := Some Map.empty)\<rparr>) \<and>
          cleanup (dep_store (w\<lparr>targetMap := (targetMap w)(t := Some Map.empty)\<rparr>) d') = DeleteKey t' k' \<and>
          entries (dep_store (w\<lparr>targetMap := (targetMap w)(t := Some Map.empty)\<rparr>) d') \<noteq> []"
          by simp
      next
        fix d' t' k'
        assume "entries (dep_store (w\<lparr>targetMap := (targetMap w)(t := Some Map.empty)\<rparr>) d') \<noteq> []"
          "cleanup (dep_store (w\<lparr>targetMap := (targetMap w)(t := Some Map.empty)\<rparr>) d') = DeleteKey t' k'"
        then have "entries (dep_store w d') \<noteq> []" "cleanup (dep_store w d') = DeleteKey t' k'" by simp_all
        from registry_okD2 [OF ok this] None
        show "\<exists>m. targetMap (w\<lparr>targetMap := (targetMap w)(t := Some Map.empty)\<rparr>) t' = Some m \<and> m k' = Some d'"
          by auto
      next
        fix d'
        assume "next_dep (w\<lparr>targetMap := (targetMap w)(t := Some Map.empty)\<rparr>) \<le> d'"
        then show "entries (dep_store (w\<lparr>targetMap := (targetMap w)(t := Some Map.empty)\<rparr>) d') = []"
          using registry_okD3 [OF ok] by simp
      qed
      then show ?thesis using None by (simp add: w1_def)
    next
      case (Some a)
      then show ?thesis using ok by (simp add: w1_def)
    qed
    show ?thesis
    proof (cases "m k")
      case (Some d)
      have tr: "track t k w = trackEffect e d w1"
        using \<open>activeEffect w = Some e\<close> True Some
        by (simp add: track_def Let_def w1_def [symmetric] w1m m_def [symmetric])
      from registry_okD1 [OF ok1 w1m Some] have "entries (dep_store w1 d) \<noteq> []" by simp
      then have "registry_ok (dep_set d e (trackId (effects w1 e)) w1)"
        using ok1 by (intro registry_ok_dep_set)
      then show ?thesis unfolding tr using ok1 by (intro registry_ok_trackEffect)
    next
      case None
      let ?w2 = "w1\<lparr>dep_store := (dep_store w1)(next_dep w1 := \<lparr>entries = [], cleanup = DeleteKey t k, dep_computed = None\<rparr>),
              next_dep := next_dep w1 + 1,
              targetMap := (targetMap w1)(t := Some (m(k \<mapsto> next_dep w1)))\<rparr>"
      have tr: "track t k w = trackEffect e (next_dep w1) ?w2"
        using \<open>activeEffect w = Some e\<close> True None
        by (simp add: track_def Let_def w1_def [symmetric] w1m createDep_def)
      have emp: "dep_get ?w2 (next_dep w1) e = None" by (simp add: dep_get_def)
      have okset: "registry_ok (dep_set (next_dep w1) e (trackId (effects ?w2 e)) ?w2)"
        using registry_ok_new_dep [OF ok1 disjI1 [OF w1m] None] by simp
      have "trackEffect e (next_dep w1) ?w2 =
          (let w1' = dep_set (next_dep w1) e (trackId (effects ?w2 e)) ?w2;
             ef = effects w1' e;
             oldDep = (if depsLength ef < length (deps ef) then Some (deps ef ! depsLength ef) else None)
         in if oldDep \<noteq> Some (next_dep w1) then
              upd_effect e (\<lambda>ef'. ef'\<lparr>deps := array_put (deps ef') (depsLength ef') (next_dep w1),
                                        depsLength := depsLength ef' + 1\<rparr>)
                (case oldDep of None \<Rightarrow> w1' | Some od \<Rightarrow> cleanupDepEffect od e w1')
            else upd_effect e (\<lambda>ef'. ef'\<lparr>depsLength := depsLength ef' + 1\<rparr>) w1')"
        using emp by (simp add: trackEffect_def)
      then have "registry_ok (trackEffect e (next_dep w1) ?w2)"
        using okset by (auto simp: Let_def registry_ok_cleanupDepEffect split: option.splits)
      then show ?thesis unfolding tr .
    qed
  qed
qed

lemma registry_ok_fold_track:
  "registry_ok w \<Longrightarrow> registry_ok (fold (\<lambda>(t, k). track t k) rs w)"
  by (induction rs arbitrary: w) (auto simp: registry_ok_track)

lemma registry_ok_flags [simp]:
  "registry_ok (w\<lparr>activeEffect := a\<rparr>) = registry_ok w"
  "registry_ok (w\<lparr>shouldTrack := b\<rparr>) = registry_ok w"
  "registry_ok (w\<lparr>onStop_calls := c\<rparr>) = registry_ok w"
  by (simp_all add: registry_ok_def)

lemma run_reads_returns: "\<exists>w'. run (reads rs) e w = Some ((), w')"
  by (simp add: run_def reads_def Let_def)

lemma registry_ok_run_reads:
  "registry_ok w \<Longrightarrow> run (reads rs) e w = Some ((), w') \<Longrightarrow> registry_ok w'"
  by (auto simp: run_def reads_def Let_def registry_ok_fold_track registry_ok_postCleanupEffect
      split: if_splits)

lemma registry_ok_stop: "registry_ok w \<Longrightarrow> registry_ok (stop e w)"
  by (simp add: stop_def Let_def registry_ok_postCleanupEffect)

lemma registry_ok_world0: "registry_ok world0"
  by (simp add: registry_ok_def world0_def)

lemma registry_ok_present:
  assumes "registry_ok w" "cleanup (dep_store w d) = DeleteKey t k"
  shows "present w d \<longleftrightarrow> entries (dep_store w d) \<noteq> []"
proof
  assume "present w d"
  then show "entries (dep_store w d) \<noteq> []"
    unfolding present_def using registry_okD1 [OF assms(1)] by blast
next
  assume "entries (dep_store w d) \<noteq> []"
  from registry_okD2 [OF assms(1) this assms(2)] show "present w d"
    unfolding present_def by blast
qed

lemma cleanups_cleanupDepEffect:
  "cleanups (cleanupDepEffect d e w) =
     (if entries (dep_store w d) \<noteq> [] \<and> entries (dep_store (cleanupDepEffect d e w) d) = []
      then cleanups w @ [d] else cleanups w)"
proof (cases "dep_get w d e")
  case None
  then show ?thesis by (simp add: cleanupDepEffect_def)
next
  case (Some tid)
  then have ne: "entries (dep_store w d) \<noteq> []"
    unfolding dep_get_def by (rule map_of_Some_nonempty)
  show ?thesis
  proof (cases "trackId (effects w e) \<noteq> tid")
    case False
    then show ?thesis using Some ne by (simp add: cleanupDepEffect_def)
  next
    case True
    then show ?thesis using Some ne
      by (simp add: cleanupDepEffect_def Let_def dep_size_def dep_delete_def)
  qed
qed

text \<open>
  Claim C3. \<^verbatim>\<open>cleanupDepEffect\<close>, the only place that removes an effect from a dep,
  calls the dep's \<^verbatim>\<open>cleanup\<close> once when the removal leaves the dep empty, and not
  otherwise; the dep is then in no key map. After \<^verbatim>\<open>cleanupDepEffect\<close>, \<^verbatim>\<open>track\<close>, a
  run of an effect that reads, and \<^verbatim>\<open>stop\<close>, from a state in which the target map is
  in order, a dep of a key is in the target map if and only if it is not empty.
\<close>

theorem empty_dep_cleanup:
  assumes "registry_ok w"
  shows "cleanups (cleanupDepEffect d e w) =
           (if entries (dep_store w d) \<noteq> [] \<and> entries (dep_store (cleanupDepEffect d e w) d) = []
            then cleanups w @ [d] else cleanups w) \<and>
         (entries (dep_store (cleanupDepEffect d e w) d) = [] \<longrightarrow> \<not> present (cleanupDepEffect d e w) d) \<and>
         (\<forall>w'. w' = cleanupDepEffect d e w \<or> w' = track t k w \<or>
               run (reads rs) e w = Some ((), w') \<or> w' = stop e w \<longrightarrow>
            (\<forall>d' t' k'. cleanup (dep_store w' d') = DeleteKey t' k' \<longrightarrow>
               (present w' d' \<longleftrightarrow> entries (dep_store w' d') \<noteq> [])))"
proof (intro conjI)
  show "cleanups (cleanupDepEffect d e w) =
           (if entries (dep_store w d) \<noteq> [] \<and> entries (dep_store (cleanupDepEffect d e w) d) = []
            then cleanups w @ [d] else cleanups w)"
    by (rule cleanups_cleanupDepEffect)
  have ok: "registry_ok (cleanupDepEffect d e w)"
    using assms by (rule registry_ok_cleanupDepEffect)
  show "entries (dep_store (cleanupDepEffect d e w) d) = [] \<longrightarrow> \<not> present (cleanupDepEffect d e w) d"
    unfolding present_def using registry_okD1 [OF ok] by blast
  have "\<forall>w'. w' = cleanupDepEffect d e w \<or> w' = track t k w \<or>
               run (reads rs) e w = Some ((), w') \<or> w' = stop e w \<longrightarrow> registry_ok w'"
    using assms ok registry_ok_track registry_ok_run_reads registry_ok_stop by blast
  then show "\<forall>w'. w' = cleanupDepEffect d e w \<or> w' = track t k w \<or>
               run (reads rs) e w = Some ((), w') \<or> w' = stop e w \<longrightarrow>
            (\<forall>d' t' k'. cleanup (dep_store w' d') = DeleteKey t' k' \<longrightarrow>
               (present w' d' \<longleftrightarrow> entries (dep_store w' d') \<noteq> []))"
    using registry_ok_present by blast
qed

subsection \<open>How the entries of the deps change\<close>

lemma dep_get_dep_set:
  "dep_get (dep_set d e v w) d' e' = (if d' = d \<and> e' = e then Some v else dep_get w d' e')"
  by (auto simp: dep_get_def dep_set_def update_conv')

lemma dep_get_dep_delete:
  "dep_get (dep_delete d e w) d' e' = (if d' = d \<and> e' = e then None else dep_get w d' e')"
  by (auto simp: dep_get_def dep_delete_def delete_conv')

lemma dep_get_dep_cleanup [simp]: "dep_get (dep_cleanup d w) d' e' = dep_get w d' e'"
  by (simp add: dep_get_def)

lemma dep_get_upd_effect [simp]: "dep_get (upd_effect e f w) d' e' = dep_get w d' e'"
  by (simp add: dep_get_def)

lemma dep_get_cleanupDepEffect:
  "dep_get (cleanupDepEffect d e w) d' e' =
     (if d' = d \<and> e' = e \<and> dep_get w d e \<noteq> Some (trackId (effects w e)) then None
      else dep_get w d' e')"
  by (auto simp: cleanupDepEffect_def Let_def dep_get_dep_delete split: option.splits)

lemma dep_get_fold_cleanupDepEffect:
  "dep_get (fold (\<lambda>d. cleanupDepEffect d e) ds w) d' e' =
     (if d' \<in> set ds \<and> e' = e \<and> dep_get w d' e \<noteq> Some (trackId (effects w e)) then None
      else dep_get w d' e')"
proof (induction ds arbitrary: w)
  case Nil
  show ?case by simp
next
  case (Cons a ds)
  show ?case
    by (auto simp add: Cons.IH dep_get_cleanupDepEffect)
qed

lemma cleanup_field_upd_dep_entries [simp]:
  "cleanup (dep_store (dep_set d e v w) d') = cleanup (dep_store w d')"
  "cleanup (dep_store (dep_delete d e w) d') = cleanup (dep_store w d')"
  by (simp_all add: dep_set_def dep_delete_def)

lemma cleanup_field_cleanupDepEffect [simp]:
  "cleanup (dep_store (cleanupDepEffect d e w) d') = cleanup (dep_store w d')"
  by (simp add: cleanupDepEffect_def Let_def split: option.splits)

lemma cleanup_field_fold_cleanupDepEffect [simp]:
  "cleanup (dep_store (fold (\<lambda>d. cleanupDepEffect d e) ds w) d') = cleanup (dep_store w d')"
  by (induction ds arbitrary: w) simp_all

lemma distinct_entries_dep_set:
  "distinct (map fst (entries (dep_store w d'))) \<Longrightarrow>
   distinct (map fst (entries (dep_store (dep_set d e v w) d')))"
  by (auto simp add: dep_set_def distinct_update)

lemma distinct_entries_dep_delete:
  "distinct (map fst (entries (dep_store w d'))) \<Longrightarrow>
   distinct (map fst (entries (dep_store (dep_delete d e w) d')))"
  by (auto simp add: dep_delete_def distinct_delete)

lemma distinct_entries_cleanupDepEffect:
  "distinct (map fst (entries (dep_store w d'))) \<Longrightarrow>
   distinct (map fst (entries (dep_store (cleanupDepEffect d e w) d')))"
  by (simp add: cleanupDepEffect_def Let_def distinct_entries_dep_delete split: option.splits)

lemma distinct_entries_fold_cleanupDepEffect:
  "distinct (map fst (entries (dep_store w d'))) \<Longrightarrow>
   distinct (map fst (entries (dep_store (fold (\<lambda>d. cleanupDepEffect d e) ds w) d')))"
  by (induction ds arbitrary: w) (simp_all add: distinct_entries_cleanupDepEffect)

subsection \<open>The invariant of the edges\<close>

lemma edges_okD:
  assumes "edges_ok w"
  shows "dep_get w d e = Some i \<Longrightarrow> i \<le> trackId (effects w e)"
    and "distinct (map fst (entries (dep_store w d)))"
    and "dep_get w d e \<noteq> None \<Longrightarrow> d \<in> set (deps (effects w e))"
    and "depsLength (effects w e) \<le> length (deps (effects w e))"
    and "d \<in> set (deps (effects w e)) \<Longrightarrow> d < next_dep w"
    and "dep_get w d e = Some (trackId (effects w e)) \<longleftrightarrow>
           d \<in> set (take (depsLength (effects w e)) (deps (effects w e)))"
    and "distinct (take (depsLength (effects w e)) (deps (effects w e)))"
  using assms unfolding edges_ok_def by blast+

lemma edges_okI:
  assumes "\<And>d e i. dep_get w d e = Some i \<Longrightarrow> i \<le> trackId (effects w e)"
    and "\<And>d. distinct (map fst (entries (dep_store w d)))"
    and "\<And>e d. dep_get w d e \<noteq> None \<Longrightarrow> d \<in> set (deps (effects w e))"
    and "\<And>e. depsLength (effects w e) \<le> length (deps (effects w e))"
    and "\<And>e d. d \<in> set (deps (effects w e)) \<Longrightarrow> d < next_dep w"
    and "\<And>e d. dep_get w d e = Some (trackId (effects w e)) \<longleftrightarrow>
           d \<in> set (take (depsLength (effects w e)) (deps (effects w e)))"
    and "\<And>e. distinct (take (depsLength (effects w e)) (deps (effects w e)))"
  shows "edges_ok w"
  unfolding edges_ok_def using assms by blast

lemma edges_ok_world0: "edges_ok world0"
  by (simp add: edges_ok_def world0_def effect0_def dep_get_def)

lemma edges_ok_cong:
  "effects w' = effects w \<Longrightarrow> dep_store w' = dep_store w \<Longrightarrow> next_dep w' = next_dep w \<Longrightarrow>
   edges_ok w' = edges_ok w"
  by (simp add: edges_ok_def dep_get_def)

lemma edges_ok_preCleanupEffect:
  assumes "edges_ok w"
  shows "edges_ok (preCleanupEffect e w)"
proof (rule edges_okI)
  fix d e' i
  assume "dep_get (preCleanupEffect e w) d e' = Some i"
  then have "dep_get w d e' = Some i" by (auto simp add: dep_get_def)
  from edges_okD(1) [OF assms this] show "i \<le> trackId (effects (preCleanupEffect e w) e')" by auto
next
  fix d show "distinct (map fst (entries (dep_store (preCleanupEffect e w) d)))"
    using edges_okD(2) [OF assms] by auto
next
  fix e' d assume "dep_get (preCleanupEffect e w) d e' \<noteq> None"
  then have "dep_get w d e' \<noteq> None" by (auto simp add: dep_get_def)
  from edges_okD(3) [OF assms this] show "d \<in> set (deps (effects (preCleanupEffect e w) e'))" by auto
next
  fix e' show "depsLength (effects (preCleanupEffect e w) e') \<le> length (deps (effects (preCleanupEffect e w) e'))"
    using edges_okD(4) [OF assms, of e'] by auto
next
  fix e' d assume "d \<in> set (deps (effects (preCleanupEffect e w) e'))"
  then have "d \<in> set (deps (effects w e'))" by (auto split: if_splits)
  from edges_okD(5) [OF assms this] show "d < next_dep (preCleanupEffect e w)" by auto
next
  fix e' d
  show "dep_get (preCleanupEffect e w) d e' = Some (trackId (effects (preCleanupEffect e w) e')) \<longleftrightarrow>
           d \<in> set (take (depsLength (effects (preCleanupEffect e w) e')) (deps (effects (preCleanupEffect e w) e')))"
  proof (cases "e' = e")
    case True
    have "dep_get w d e \<noteq> Some (trackId (effects w e) + 1)"
      using edges_okD(1) [OF assms, of d e "trackId (effects w e) + 1"] by auto
    with True show ?thesis by (auto simp add: dep_get_def)
  next
    case False
    with edges_okD(6) [OF assms, of d e'] show ?thesis by (auto simp add: dep_get_def)
  qed
next
  fix e' show "distinct (take (depsLength (effects (preCleanupEffect e w) e')) (deps (effects (preCleanupEffect e w) e')))"
    using edges_okD(7) [OF assms, of e'] by auto
qed

lemma edges_ok_postCleanupEffect:
  assumes "edges_ok w"
  shows "edges_ok (postCleanupEffect e w)"
proof (cases "length (deps (effects w e)) > depsLength (effects w e)")
  case False
  then show ?thesis using assms by (auto simp add: postCleanupEffect_def)
next
  case True
  let ?n = "depsLength (effects w e)" and ?ds = "deps (effects w e)"
  let ?w' = "postCleanupEffect e w"
  have eff: "effects ?w' = (effects w)(e := (effects w e)\<lparr>deps := take ?n ?ds\<rparr>)"
    by (rule effects_postCleanupEffect)
  have dg: "\<And>d' e'. dep_get ?w' d' e' =
     (if d' \<in> set (drop ?n ?ds) \<and> e' = e \<and> dep_get w d' e \<noteq> Some (trackId (effects w e)) then None
      else dep_get w d' e')"
    using True by (auto simp add: postCleanupEffect_def Let_def dep_get_fold_cleanupDepEffect)
  show ?thesis
  proof (rule edges_okI)
    fix d e' i
    assume "dep_get ?w' d e' = Some i"
    then have "dep_get w d e' = Some i" by (auto simp add: dg split: if_splits)
    from edges_okD(1) [OF assms this] show "i \<le> trackId (effects ?w' e')" by (auto simp add: eff)
  next
    fix d show "distinct (map fst (entries (dep_store ?w' d)))"
      using edges_okD(2) [OF assms, of d] True
      by (auto simp add: postCleanupEffect_def Let_def distinct_entries_fold_cleanupDepEffect)
  next
    fix e' d assume a: "dep_get ?w' d e' \<noteq> None"
    then have b: "dep_get w d e' \<noteq> None" by (auto simp add: dg split: if_splits)
    from edges_okD(3) [OF assms b] have c: "d \<in> set (deps (effects w e'))" .
    show "d \<in> set (deps (effects ?w' e'))"
    proof (cases "e' = e")
      case False
      with c show ?thesis by (auto simp add: eff)
    next
      case True
      have "d \<in> set (take ?n ?ds)"
      proof (cases "d \<in> set (drop ?n ?ds)")
        case True
        with a \<open>e' = e\<close> have "dep_get w d e = Some (trackId (effects w e))"
          by (auto simp add: dg split: if_splits)
        then show ?thesis using edges_okD(6) [OF assms] by blast
      next
        case False
        have "set ?ds = set (take ?n ?ds) \<union> set (drop ?n ?ds)"
          by (metis append_take_drop_id set_append)
        with c False \<open>e' = e\<close> show ?thesis by blast
      qed
      with True show ?thesis by (auto simp add: eff)
    qed
  next
    fix e' show "depsLength (effects ?w' e') \<le> length (deps (effects ?w' e'))"
      using edges_okD(4) [OF assms, of e'] by (auto simp add: eff)
  next
    fix e' d assume "d \<in> set (deps (effects ?w' e'))"
    then have "d \<in> set (deps (effects w e'))"
      by (auto simp: eff split: if_splits dest: in_set_takeD)
    from edges_okD(5) [OF assms this] show "d < next_dep ?w'" by auto
  next
    fix e' d
    have cur: "dep_get ?w' d e' = Some (trackId (effects w e')) \<longleftrightarrow>
          dep_get w d e' = Some (trackId (effects w e'))"
      by (auto simp: dg)
    show "dep_get ?w' d e' = Some (trackId (effects ?w' e')) \<longleftrightarrow>
           d \<in> set (take (depsLength (effects ?w' e')) (deps (effects ?w' e')))"
      using cur edges_okD(6) [OF assms, of d e'] by (auto simp add: eff)
  next
    fix e' show "distinct (take (depsLength (effects ?w' e')) (deps (effects ?w' e')))"
      using edges_okD(7) [OF assms, of e'] by (auto simp add: eff)
  qed
qed

subsection \<open>trackEffect\<close>

lemma trackEffect_same:
  "dep_get w d e = Some (trackId (effects w e)) \<Longrightarrow> trackEffect e d w = w"
  by (simp add: trackEffect_def)

lemma array_put_same: "n < length xs \<Longrightarrow> xs ! n = x \<Longrightarrow> array_put xs n x = xs"
  by (auto simp: array_put_def)

lemma effects_dep_set [simp]: "effects (dep_set d e v w) = effects w"
  by (simp add: dep_set_def)

lemma trackEffect_unfold:
  assumes "dep_get w d e \<noteq> Some (trackId (effects w e))"
  shows "trackEffect e d w =
     upd_effect e (\<lambda>ef. ef\<lparr>deps := array_put (deps ef) (depsLength ef) d,
                             depsLength := depsLength ef + 1\<rparr>)
       (if depsLength (effects w e) < length (deps (effects w e)) \<and>
           deps (effects w e) ! depsLength (effects w e) \<noteq> d
        then cleanupDepEffect (deps (effects w e) ! depsLength (effects w e)) e
               (dep_set d e (trackId (effects w e)) w)
        else dep_set d e (trackId (effects w e)) w)"
proof (cases "depsLength (effects w e) < length (deps (effects w e))")
  case False
  then show ?thesis using assms by (simp add: trackEffect_def Let_def)
next
  case True
  show ?thesis
  proof (cases "deps (effects w e) ! depsLength (effects w e) = d")
    case False
    then show ?thesis using assms True by (simp add: trackEffect_def Let_def)
  next
    case same: True
    let ?w1 = "dep_set d e (trackId (effects w e)) w"
    have "array_put (deps (effects w e)) (depsLength (effects w e)) d = deps (effects w e)"
      using True same by (rule array_put_same)
    then have "upd_effect e (\<lambda>ef. ef\<lparr>deps := array_put (deps ef) (depsLength ef) d,
                             depsLength := depsLength ef + 1\<rparr>) ?w1
        = upd_effect e (\<lambda>ef'. ef'\<lparr>depsLength := depsLength ef' + 1\<rparr>) ?w1"
      by (simp add: upd_effect_def)
    then show ?thesis using assms True same by (simp add: trackEffect_def Let_def)
  qed
qed

lemma trackEffect_effects:
  assumes "dep_get w d e \<noteq> Some (trackId (effects w e))"
  shows "effects (trackEffect e d w) =
     (effects w)(e := (effects w e)\<lparr>deps := array_put (deps (effects w e)) (depsLength (effects w e)) d,
                                   depsLength := depsLength (effects w e) + 1\<rparr>)"
  unfolding trackEffect_unfold [OF assms] by simp

lemma trackEffect_dep_get:
  assumes "dep_get w d e \<noteq> Some (trackId (effects w e))"
  shows "dep_get (trackEffect e d w) d' e' =
     (if e' = e \<and> d' = d then Some (trackId (effects w e))
      else if e' = e \<and> depsLength (effects w e) < length (deps (effects w e)) \<and>
              d' = deps (effects w e) ! depsLength (effects w e) \<and>
              dep_get w d' e \<noteq> Some (trackId (effects w e)) then None
      else dep_get w d' e')"
  unfolding trackEffect_unfold [OF assms]
  by (auto simp: dep_get_cleanupDepEffect dep_get_dep_set)

lemma trackEffect_frame [simp]:
  "next_dep (trackEffect e d w) = next_dep w"
  "activeEffect (trackEffect e d w) = activeEffect w"
  "shouldTrack (trackEffect e d w) = shouldTrack w"
  "onStop_calls (trackEffect e d w) = onStop_calls w"
  by (auto simp: trackEffect_def Let_def dep_set_def split: option.splits)

lemma cleanup_field_trackEffect [simp]:
  "cleanup (dep_store (trackEffect e d w) d') = cleanup (dep_store w d')"
  by (auto simp: trackEffect_def Let_def split: option.splits)

lemma distinct_entries_trackEffect:
  "distinct (map fst (entries (dep_store w d'))) \<Longrightarrow>
   distinct (map fst (entries (dep_store (trackEffect e d w) d')))"
  by (auto simp: trackEffect_def Let_def distinct_entries_cleanupDepEffect distinct_entries_dep_set
      split: option.splits)

lemma take_Suc_array_put:
  "n \<le> length xs \<Longrightarrow> take (Suc n) (array_put xs n x) = take n xs @ [x]"
  by (auto simp: array_put_def take_Suc_conv_app_nth)

lemma set_array_put:
  "n \<le> length xs \<Longrightarrow> set (array_put xs n x) = set (take n xs) \<union> {x} \<union> set (drop (Suc n) xs)"
  by (auto simp: array_put_def upd_conv_take_nth_drop)

lemma set_split_at:
  assumes "n < length xs"
  shows "set xs = set (take n xs) \<union> {xs ! n} \<union> set (drop (Suc n) xs)"
proof -
  have "set xs = set (take n xs @ xs ! n # drop (Suc n) xs)"
    using id_take_nth_drop [OF assms] by (rule arg_cong)
  then show ?thesis by simp
qed

lemma length_array_put: "n \<le> length xs \<Longrightarrow> Suc n \<le> length (array_put xs n x)"
  by (auto simp: array_put_def)

lemma edges_ok_trackEffect:
  assumes ok: "edges_ok w" and d: "d < next_dep w"
  shows "edges_ok (trackEffect e d w)"
proof (cases "dep_get w d e = Some (trackId (effects w e))")
  case True
  then show ?thesis using ok by (simp add: trackEffect_same)
next
  case False
  let ?n = "depsLength (effects w e)" and ?ds = "deps (effects w e)" and ?tid = "trackId (effects w e)"
  let ?w' = "trackEffect e d w"
  note eff = trackEffect_effects [OF False]
  note dg = trackEffect_dep_get [OF False]
  have n: "?n \<le> length ?ds" by (rule edges_okD(4) [OF ok])
  have dnot: "d \<notin> set (take ?n ?ds)" using False edges_okD(6) [OF ok, of d e] by simp
  show ?thesis
  proof (rule edges_okI)
    fix d' e' i
    assume "dep_get ?w' d' e' = Some i"
    then have "i = ?tid \<and> e' = e \<or> dep_get w d' e' = Some i"
      by (auto simp: dg split: if_splits)
    then show "i \<le> trackId (effects ?w' e')"
      using edges_okD(1) [OF ok, of d' e' i] by (auto simp: eff)
  next
    fix d' show "distinct (map fst (entries (dep_store ?w' d')))"
      using edges_okD(2) [OF ok, of d'] by (rule distinct_entries_trackEffect)
  next
    fix e' d' assume a: "dep_get ?w' d' e' \<noteq> None"
    show "d' \<in> set (deps (effects ?w' e'))"
    proof (cases "e' = e")
      case False
      with a have "dep_get w d' e' \<noteq> None" by (simp add: dg)
      from edges_okD(3) [OF ok this] False show ?thesis by (simp add: eff)
    next
      case True
      show ?thesis
      proof (cases "d' = d")
        case True
        then show ?thesis using \<open>e' = e\<close> n by (simp add: eff set_array_put)
      next
        case False
        with a True have b: "dep_get w d' e \<noteq> None"
          and c: "\<not> (?n < length ?ds \<and> d' = ?ds ! ?n \<and> dep_get w d' e \<noteq> Some ?tid)"
          by (auto simp: dg split: if_splits)
        from edges_okD(3) [OF ok b] have mem: "d' \<in> set ?ds" .
        have "d' \<in> set (take ?n ?ds) \<union> set (drop (Suc ?n) ?ds)"
        proof (cases "?n < length ?ds")
          case False
          with mem show ?thesis by simp
        next
          case True
          from mem set_split_at [OF True]
          have "d' \<in> set (take ?n ?ds) \<or> d' = ?ds ! ?n \<or> d' \<in> set (drop (Suc ?n) ?ds)" by auto
          moreover have "d' = ?ds ! ?n \<Longrightarrow> d' \<in> set (take ?n ?ds)"
            using c True edges_okD(6) [OF ok, of d' e] by auto
          ultimately show ?thesis by blast
        qed
        then show ?thesis using \<open>e' = e\<close> n by (auto simp: eff set_array_put)
      qed
    qed
  next
    fix e' show "depsLength (effects ?w' e') \<le> length (deps (effects ?w' e'))"
      using edges_okD(4) [OF ok, of e'] length_array_put [OF n, of d] by (auto simp: eff)
  next
    fix e' d' assume "d' \<in> set (deps (effects ?w' e'))"
    then have "d' = d \<or> d' \<in> set (deps (effects w e'))"
      using n by (auto simp: eff set_array_put split: if_splits dest: in_set_takeD in_set_dropD)
    then show "d' < next_dep ?w'" using d edges_okD(5) [OF ok, of d' e'] by auto
  next
    fix e' d'
    show "dep_get ?w' d' e' = Some (trackId (effects ?w' e')) \<longleftrightarrow>
           d' \<in> set (take (depsLength (effects ?w' e')) (deps (effects ?w' e')))"
    proof (cases "e' = e")
      case False
      then show ?thesis using edges_okD(6) [OF ok, of d' e'] by (simp add: eff dg)
    next
      case True
      have tk: "take (depsLength (effects ?w' e)) (deps (effects ?w' e)) = take ?n ?ds @ [d]"
        using take_Suc_array_put [OF n, of d] by (simp add: eff)
      have tid: "trackId (effects ?w' e) = ?tid" by (simp add: eff)
      show ?thesis
        unfolding True tk tid
        using edges_okD(6) [OF ok, of d' e] by (auto simp: dg)
    qed
  next
    fix e'
    show "distinct (take (depsLength (effects ?w' e')) (deps (effects ?w' e')))"
    proof (cases "e' = e")
      case False
      then show ?thesis using edges_okD(7) [OF ok, of e'] by (simp add: eff)
    next
      case True
      have tk: "take (depsLength (effects ?w' e)) (deps (effects ?w' e)) = take ?n ?ds @ [d]"
        using take_Suc_array_put [OF n, of d] by (simp add: eff)
      show ?thesis unfolding True tk using edges_okD(7) [OF ok, of e] dnot by simp
    qed
  qed
qed

lemma track_existing:
  assumes "activeEffect w = Some e" "shouldTrack w" "slot w t k = Some d"
  shows "track t k w = trackEffect e d w"
  using assms by (auto simp: track_def slot_def Let_def split: option.splits)

lemma track_fresh:
  assumes "activeEffect w = Some e" "shouldTrack w" "slot w t k = None"
  shows "track t k w = trackEffect e (next_dep w) (new_dep_world t k w)"
  using assms
  by (auto simp: track_def slot_def Let_def createDep_def new_dep_world_def split: option.splits)

lemma track_off:
  "activeEffect w = None \<or> \<not> shouldTrack w \<Longrightarrow> track t k w = w"
  by (auto simp: track_def split: option.splits)

lemma slot_registry:
  "registry_ok w \<Longrightarrow> slot w t k = Some d \<Longrightarrow>
     d < next_dep w \<and> cleanup (dep_store w d) = DeleteKey t k \<and> entries (dep_store w d) \<noteq> []"
  unfolding slot_def using registry_okD1 by (auto split: option.splits)

lemma registry_slot:
  "registry_ok w \<Longrightarrow> entries (dep_store w d) \<noteq> [] \<Longrightarrow> cleanup (dep_store w d) = DeleteKey t k \<Longrightarrow>
     slot w t k = Some d"
  unfolding slot_def using registry_okD2 by fastforce

lemma new_dep_world_simps [simp]:
  "effects (new_dep_world t k w) = effects w"
  "next_dep (new_dep_world t k w) = next_dep w + 1"
  "activeEffect (new_dep_world t k w) = activeEffect w"
  "shouldTrack (new_dep_world t k w) = shouldTrack w"
  "onStop_calls (new_dep_world t k w) = onStop_calls w"
  by (simp_all add: new_dep_world_def)

lemma dep_get_new_dep_world:
  "dep_get (new_dep_world t k w) d e = (if d = next_dep w then None else dep_get w d e)"
  by (simp add: dep_get_def new_dep_world_def)

lemma slot_new_dep_world:
  "slot (new_dep_world t k w) t' k' = (if t' = t \<and> k' = k then Some (next_dep w) else slot w t' k')"
  by (auto simp: slot_def new_dep_world_def split: option.splits)

lemma cleanup_field_new_dep_world:
  "cleanup (dep_store (new_dep_world t k w) d) =
     (if d = next_dep w then DeleteKey t k else cleanup (dep_store w d))"
  by (simp add: new_dep_world_def)

lemma registry_ok_new_dep_world_set:
  assumes "registry_ok w" "slot w t k = None"
  shows "registry_ok (dep_set (next_dep w) e v (new_dep_world t k w))"
proof -
  define m where "m = (case targetMap w t of None \<Rightarrow> Map.empty | Some m \<Rightarrow> m)"
  have a: "targetMap w t = Some m \<or> (targetMap w t = None \<and> m = Map.empty)"
    by (auto simp: m_def split: option.splits)
  have b: "m k = None" using assms(2) by (auto simp: m_def slot_def split: option.splits)
  show ?thesis
    using registry_ok_new_dep [OF assms(1) a b, of e v]
    by (simp add: new_dep_world_def m_def)
qed

lemma edges_ok_new_dep_world:
  assumes "edges_ok w"
  shows "edges_ok (new_dep_world t k w)"
proof (rule edges_okI)
  fix d e i assume "dep_get (new_dep_world t k w) d e = Some i"
  then have "dep_get w d e = Some i" by (simp add: dep_get_new_dep_world split: if_splits)
  from edges_okD(1) [OF assms this] show "i \<le> trackId (effects (new_dep_world t k w) e)" by simp
next
  fix d show "distinct (map fst (entries (dep_store (new_dep_world t k w) d)))"
    using edges_okD(2) [OF assms, of d] by (simp add: new_dep_world_def)
next
  fix e d assume "dep_get (new_dep_world t k w) d e \<noteq> None"
  then have "dep_get w d e \<noteq> None" by (simp add: dep_get_new_dep_world split: if_splits)
  from edges_okD(3) [OF assms this] show "d \<in> set (deps (effects (new_dep_world t k w) e))" by simp
next
  fix e show "depsLength (effects (new_dep_world t k w) e) \<le> length (deps (effects (new_dep_world t k w) e))"
    using edges_okD(4) [OF assms, of e] by simp
next
  fix e d assume "d \<in> set (deps (effects (new_dep_world t k w) e))"
  then have "d < next_dep w" using edges_okD(5) [OF assms, of d e] by simp
  then show "d < next_dep (new_dep_world t k w)" by simp
next
  fix e d
  have "next_dep w \<notin> set (take (depsLength (effects w e)) (deps (effects w e)))"
    using edges_okD(5) [OF assms, of "next_dep w" e] by (auto dest: in_set_takeD)
  then show "dep_get (new_dep_world t k w) d e = Some (trackId (effects (new_dep_world t k w) e)) \<longleftrightarrow>
       d \<in> set (take (depsLength (effects (new_dep_world t k w) e)) (deps (effects (new_dep_world t k w) e)))"
    using edges_okD(6) [OF assms, of d e] by (auto simp: dep_get_new_dep_world)
next
  fix e show "distinct (take (depsLength (effects (new_dep_world t k w) e)) (deps (effects (new_dep_world t k w) e)))"
    using edges_okD(7) [OF assms, of e] by simp
qed

lemma edges_ok_track:
  assumes "registry_ok w" "edges_ok w"
  shows "edges_ok (track t k w)"
proof (cases "activeEffect w = None \<or> \<not> shouldTrack w")
  case True
  then show ?thesis using assms by (simp add: track_off)
next
  case False
  then obtain e where e: "activeEffect w = Some e" "shouldTrack w" by auto
  show ?thesis
  proof (cases "slot w t k")
    case None
    have "edges_ok (trackEffect e (next_dep w) (new_dep_world t k w))"
      by (rule edges_ok_trackEffect) (simp_all add: edges_ok_new_dep_world assms)
    then show ?thesis by (simp add: track_fresh [OF e None])
  next
    case (Some d)
    have "edges_ok (trackEffect e d w)"
      using assms(2) slot_registry [OF assms(1) Some] by (intro edges_ok_trackEffect) simp_all
    then show ?thesis by (simp add: track_existing [OF e Some])
  qed
qed

lemma world_ok_world0: "world_ok world0"
  by (simp add: world_ok_def registry_ok_world0 edges_ok_world0)

lemma world_ok_track: "world_ok w \<Longrightarrow> world_ok (track t k w)"
  by (simp add: world_ok_def registry_ok_track edges_ok_track)

lemma world_ok_fold_track: "world_ok w \<Longrightarrow> world_ok (fold (\<lambda>(t, k). track t k) rs w)"
  by (induction rs arbitrary: w) (auto simp: world_ok_track)

lemma edges_ok_upd_effect_irrelevant:
  assumes "\<And>ef. deps (f ef) = deps ef" "\<And>ef. depsLength (f ef) = depsLength ef"
    "\<And>ef. trackId (f ef) = trackId ef"
  shows "edges_ok (upd_effect e f w) = edges_ok w"
proof -
  have a: "\<And>e'. deps (effects (upd_effect e f w) e') = deps (effects w e')"
    and b: "\<And>e'. depsLength (effects (upd_effect e f w) e') = depsLength (effects w e')"
    and c: "\<And>e'. trackId (effects (upd_effect e f w) e') = trackId (effects w e')"
    by (simp_all add: assms)
  show ?thesis
    by (simp only: edges_ok_def a b c dep_get_upd_effect upd_effect_other)
qed

lemma edges_ok_upd_runnings [simp]:
  "edges_ok (upd_effect e (\<lambda>ef. ef\<lparr>runnings := f ef\<rparr>) w) = edges_ok w"
  "edges_ok (upd_effect e (\<lambda>ef. ef\<lparr>dirtyLevel := g ef\<rparr>) w) = edges_ok w"
  "edges_ok (upd_effect e (\<lambda>ef. ef\<lparr>active := h ef\<rparr>) w) = edges_ok w"
  by (rule edges_ok_upd_effect_irrelevant; simp)+

lemma edges_ok_flags [simp]:
  "edges_ok (w\<lparr>activeEffect := a\<rparr>) = edges_ok w"
  "edges_ok (w\<lparr>shouldTrack := b\<rparr>) = edges_ok w"
  "edges_ok (w\<lparr>onStop_calls := c\<rparr>) = edges_ok w"
  by (simp_all add: edges_ok_def dep_get_def)

lemma world_ok_flags [simp]:
  "world_ok (w\<lparr>activeEffect := a\<rparr>) = world_ok w"
  "world_ok (w\<lparr>shouldTrack := b\<rparr>) = world_ok w"
  "world_ok (w\<lparr>onStop_calls := c\<rparr>) = world_ok w"
  "world_ok (upd_effect e (\<lambda>ef. ef\<lparr>runnings := f ef\<rparr>) w) = world_ok w"
  "world_ok (upd_effect e (\<lambda>ef. ef\<lparr>dirtyLevel := g ef\<rparr>) w) = world_ok w"
  "world_ok (upd_effect e (\<lambda>ef. ef\<lparr>active := h ef\<rparr>) w) = world_ok w"
  by (simp_all add: world_ok_def)

lemma world_ok_preCleanupEffect: "world_ok w \<Longrightarrow> world_ok (preCleanupEffect e w)"
  by (simp add: world_ok_def edges_ok_preCleanupEffect)

lemma world_ok_postCleanupEffect: "world_ok w \<Longrightarrow> world_ok (postCleanupEffect e w)"
  by (simp add: world_ok_def edges_ok_postCleanupEffect registry_ok_postCleanupEffect)

lemma world_ok_run_reads: "world_ok w \<Longrightarrow> run (reads rs) e w = Some ((), w') \<Longrightarrow> world_ok w'"
  by (auto simp: run_def reads_def Let_def world_ok_fold_track world_ok_postCleanupEffect world_ok_preCleanupEffect
      split: if_splits)

lemma world_ok_stop: "world_ok w \<Longrightarrow> world_ok (stop e w)"
  by (simp add: stop_def Let_def world_ok_postCleanupEffect world_ok_preCleanupEffect)

subsection \<open>Slots of the target map\<close>

lemma slot_upd_effect [simp]: "slot (upd_effect e f w) t k = slot w t k"
  by (simp add: slot_def)

lemma slot_dep_set [simp]: "slot (dep_set d e v w) t k = slot w t k"
  by (simp add: slot_def dep_set_def)

lemma slot_dep_delete [simp]: "slot (dep_delete d e w) t k = slot w t k"
  by (simp add: slot_def dep_delete_def)

lemma dep_get_Some_nonempty: "dep_get w d e = Some i \<Longrightarrow> entries (dep_store w d) \<noteq> []"
  unfolding dep_get_def by (rule map_of_Some_nonempty)

lemma slot_dep_cleanup:
  "slot (dep_cleanup d w) t k =
     (if cleanup (dep_store w d) = DeleteKey t k then None else slot w t k)"
proof (cases "cleanup (dep_store w d)")
  case (ClearRefDep c)
  then show ?thesis by (simp add: slot_def dep_cleanup_def Let_def)
next
  case (DeleteKey t0 k0)
  show ?thesis
  proof (cases "targetMap w t0")
    case None
    then show ?thesis using DeleteKey by (auto simp: slot_def dep_cleanup_def Let_def)
  next
    case (Some m)
    then show ?thesis using DeleteKey by (auto simp: slot_def dep_cleanup_def Let_def)
  qed
qed

lemma cleanupDepEffect_cases:
  "cleanupDepEffect od e w = w \<or>
   (cleanupDepEffect od e w = dep_delete od e w \<and> entries (dep_store (dep_delete od e w) od) \<noteq> []) \<or>
   (cleanupDepEffect od e w = dep_cleanup od (dep_delete od e w) \<and>
      entries (dep_store (dep_delete od e w) od) = [] \<and> entries (dep_store w od) \<noteq> [])"
proof (cases "dep_get w od e")
  case None
  then show ?thesis by (simp add: cleanupDepEffect_def)
next
  case (Some tid)
  then have ne: "entries (dep_store w od) \<noteq> []" by (rule dep_get_Some_nonempty)
  show ?thesis
  proof (cases "trackId (effects w e) = tid")
    case True
    then show ?thesis using Some by (simp add: cleanupDepEffect_def)
  next
    case False
    show ?thesis
    proof (cases "entries (dep_store (dep_delete od e w) od) = []")
      case True
      then have "cleanupDepEffect od e w = dep_cleanup od (dep_delete od e w)"
        using Some False by (simp add: cleanupDepEffect_def Let_def dep_size_def)
      then show ?thesis using True ne by simp
    next
      case nonempty: False
      then have "cleanupDepEffect od e w = dep_delete od e w"
        using Some False by (simp add: cleanupDepEffect_def Let_def dep_size_def)
      then show ?thesis using nonempty by simp
    qed
  qed
qed

lemma slot_cleanupDepEffect:
  assumes ok: "registry_ok w" and s: "slot w t k = Some d"
    and ne: "dep_get (cleanupDepEffect od e w) d e1 = Some i"
  shows "slot (cleanupDepEffect od e w) t k = Some d"
proof -
  consider (same) "cleanupDepEffect od e w = w"
    | (del) "cleanupDepEffect od e w = dep_delete od e w"
    | (last) "cleanupDepEffect od e w = dep_cleanup od (dep_delete od e w)"
        "entries (dep_store (dep_delete od e w) od) = []" "entries (dep_store w od) \<noteq> []"
    using cleanupDepEffect_cases [of od e w] by blast
  then show ?thesis
  proof cases
    case same
    then show ?thesis using s by simp
  next
    case del
    then show ?thesis using s by simp
  next
    case last
    have "d \<noteq> od"
    proof
      assume "d = od"
      then have "dep_get (cleanupDepEffect od e w) d e1 = None"
        using last(2) by (simp add: last(1) dep_get_def)
      with ne show False by simp
    qed
    have "cleanup (dep_store w od) \<noteq> DeleteKey t k"
    proof
      assume "cleanup (dep_store w od) = DeleteKey t k"
      from registry_slot [OF ok last(3) this] s \<open>d \<noteq> od\<close> show False by simp
    qed
    then show ?thesis using s by (simp add: last(1) slot_dep_cleanup)
  qed
qed

subsection \<open>An edge recorded in the current run stays\<close>

lemma tracked_upd_effect:
  assumes "tracked w e t k" "\<And>ef. trackId (f ef) = trackId ef"
  shows "tracked (upd_effect e' f w) e t k"
  using assms by (auto simp: tracked_def)

lemma tracked_cleanupDepEffect:
  assumes "registry_ok w" "tracked w e t k"
  shows "tracked (cleanupDepEffect od e w) e t k"
proof -
  from assms(2) obtain d where d: "slot w t k = Some d" "dep_get w d e = Some (trackId (effects w e))"
    unfolding tracked_def by blast
  have g: "dep_get (cleanupDepEffect od e w) d e = Some (trackId (effects w e))"
    using d(2) by (auto simp add: dep_get_cleanupDepEffect)
  from slot_cleanupDepEffect [OF assms(1) d(1) g] g show ?thesis
    unfolding tracked_def by auto
qed

lemma tracked_fold_cleanupDepEffect:
  "registry_ok w \<Longrightarrow> tracked w e t k \<Longrightarrow> tracked (fold (\<lambda>d. cleanupDepEffect d e) ds w) e t k"
  by (induction ds arbitrary: w) (simp_all add: tracked_cleanupDepEffect registry_ok_cleanupDepEffect)

lemma tracked_postCleanupEffect:
  "registry_ok w \<Longrightarrow> tracked w e t k \<Longrightarrow> tracked (postCleanupEffect e w) e t k"
  by (simp add: postCleanupEffect_def Let_def tracked_upd_effect tracked_fold_cleanupDepEffect)

lemma tracked_dep_set:
  "tracked w e t k \<Longrightarrow> tracked (dep_set d e (trackId (effects w e)) w) e t k"
  by (auto simp: tracked_def dep_get_dep_set)

lemma tracked_trackEffect_step:
  assumes ok: "registry_ok (dep_set d e (trackId (effects w e)) w)"
    and tr: "tracked (dep_set d e (trackId (effects w e)) w) e t k"
    and new: "dep_get w d e \<noteq> Some (trackId (effects w e))"
  shows "tracked (trackEffect e d w) e t k"
proof -
  let ?w1 = "dep_set d e (trackId (effects w e)) w"
  let ?od = "deps (effects w e) ! depsLength (effects w e)"
  have a: "tracked (cleanupDepEffect ?od e ?w1) e t k"
    using ok tr by (rule tracked_cleanupDepEffect)
  have "tracked (if depsLength (effects w e) < length (deps (effects w e)) \<and> ?od \<noteq> d
        then cleanupDepEffect ?od e ?w1 else ?w1) e t k"
    using a tr by simp
  then show ?thesis
    unfolding trackEffect_unfold [OF new] by (rule tracked_upd_effect) simp
qed

lemma tracked_trackEffect:
  assumes "registry_ok (dep_set d e (trackId (effects w e)) w)" "tracked w e t k"
  shows "tracked (trackEffect e d w) e t k"
proof (cases "dep_get w d e = Some (trackId (effects w e))")
  case True
  then show ?thesis using assms(2) by (simp add: trackEffect_same)
next
  case False
  show ?thesis using assms(1) tracked_dep_set [OF assms(2)] False by (rule tracked_trackEffect_step)
qed

lemma tracked_trackEffect_self:
  assumes ok: "registry_ok (dep_set d e (trackId (effects w e)) w)" and s: "slot w t k = Some d"
  shows "tracked (trackEffect e d w) e t k"
proof (cases "dep_get w d e = Some (trackId (effects w e))")
  case True
  then show ?thesis using s by (simp add: trackEffect_same tracked_def)
next
  case False
  have "tracked (dep_set d e (trackId (effects w e)) w) e t k"
    using s by (simp add: tracked_def dep_get_dep_set)
  with ok show ?thesis using False by (rule tracked_trackEffect_step)
qed

lemma tracked_track_self:
  assumes "world_ok w" "tracking w e"
  shows "tracked (track t k w) e t k"
proof -
  from assms have ok: "registry_ok w" and e: "activeEffect w = Some e" "shouldTrack w"
    by (simp_all add: world_ok_def tracking_def)
  show ?thesis
  proof (cases "slot w t k")
    case (Some d)
    have "registry_ok (dep_set d e (trackId (effects w e)) w)"
      using ok slot_registry [OF ok Some] by (intro registry_ok_dep_set) simp_all
    then show ?thesis unfolding track_existing [OF e Some] using Some
      by (rule tracked_trackEffect_self)
  next
    case None
    let ?w = "new_dep_world t k w"
    have "registry_ok (dep_set (next_dep w) e (trackId (effects ?w e)) ?w)"
      using registry_ok_new_dep_world_set [OF ok None] by simp
    moreover have "slot ?w t k = Some (next_dep w)" by (simp add: slot_new_dep_world)
    ultimately show ?thesis unfolding track_fresh [OF e None]
      by (rule tracked_trackEffect_self)
  qed
qed

lemma tracked_track:
  assumes "world_ok w" "tracking w e" "tracked w e t k"
  shows "tracked (track t' k' w) e t k"
proof -
  from assms have ok: "registry_ok w" and e: "activeEffect w = Some e" "shouldTrack w"
    by (simp_all add: world_ok_def tracking_def)
  from assms(3) obtain d where d: "slot w t k = Some d" "dep_get w d e = Some (trackId (effects w e))"
    unfolding tracked_def by blast
  show ?thesis
  proof (cases "slot w t' k'")
    case (Some d')
    have "registry_ok (dep_set d' e (trackId (effects w e)) w)"
      using ok slot_registry [OF ok Some] by (intro registry_ok_dep_set) simp_all
    then show ?thesis unfolding track_existing [OF e Some] using assms(3)
      by (rule tracked_trackEffect)
  next
    case None
    let ?w = "new_dep_world t' k' w"
    have ok': "registry_ok (dep_set (next_dep w) e (trackId (effects ?w e)) ?w)"
      using registry_ok_new_dep_world_set [OF ok None] by simp
    have "d < next_dep w" using slot_registry [OF ok d(1)] by simp
    moreover have "\<not> (t = t' \<and> k = k')" using d(1) None by auto
    ultimately have "tracked ?w e t k"
      using d by (auto simp: tracked_def slot_new_dep_world dep_get_new_dep_world)
    with ok' show ?thesis unfolding track_fresh [OF e None]
      by (rule tracked_trackEffect)
  qed
qed

lemma track_frame [simp]:
  "activeEffect (track t k w) = activeEffect w"
  "shouldTrack (track t k w) = shouldTrack w"
  "onStop_calls (track t k w) = onStop_calls w"
  by (auto simp: track_def Let_def createDep_def split: option.splits)

lemma tracking_track [simp]: "tracking (track t k w) e = tracking w e"
  by (simp add: tracking_def)

lemma tracked_fold_track:
  "world_ok w \<Longrightarrow> tracking w e \<Longrightarrow> (t, k) \<in> set rs \<or> tracked w e t k \<Longrightarrow>
   tracked (fold (\<lambda>(t, k). track t k) rs w) e t k"
proof (induction rs arbitrary: w)
  case Nil
  then show ?case by simp
next
  case (Cons r rs)
  obtain t' k' where r: "r = (t', k')" by (cases r)
  have "(t, k) \<in> set rs \<or> tracked (track t' k' w) e t k"
  proof (cases "tracked w e t k")
    case True
    then show ?thesis using Cons.prems tracked_track by blast
  next
    case False
    with Cons.prems r have "(t, k) = (t', k') \<or> (t, k) \<in> set rs" by auto
    then show ?thesis using tracked_track_self [OF Cons.prems(1,2)] by auto
  qed
  then have "tracked (fold (\<lambda>(t, k). track t k) rs (track t' k' w)) e t k"
    using Cons.prems by (intro Cons.IH) (simp_all add: world_ok_track)
  then show ?case by (simp add: r)
qed

subsection \<open>A run of an effect that reads\<close>

lemma run_reads_unfold:
  assumes "active (effects w e)"
  shows "run (reads rs) e w = Some ((), after_run rs e w)"
  using assms by (simp add: run_def reads_def Let_def run_setup_def after_run_def)

lemma world_ok_run_setup: "world_ok w \<Longrightarrow> world_ok (run_setup e w)"
  by (simp add: run_setup_def world_ok_preCleanupEffect)

lemma tracking_run_setup: "tracking (run_setup e w) e"
  by (simp add: run_setup_def tracking_def)

lemma tracked_flags [simp]:
  "tracked (w\<lparr>activeEffect := a, shouldTrack := b\<rparr>) e t k = tracked w e t k"
  by (simp add: tracked_def slot_def dep_get_def)

lemma tracked_run_reads:
  assumes "world_ok w" "active (effects w e)" "(t, k) \<in> set rs"
  shows "tracked (after_run rs e w) e t k"
proof -
  let ?w4 = "fold (\<lambda>(t, k). track t k) rs (run_setup e w)"
  have "tracked ?w4 e t k"
    using world_ok_run_setup [OF assms(1)] tracking_run_setup assms(3) by (intro tracked_fold_track) auto
  moreover have "registry_ok ?w4"
    using world_ok_fold_track [OF world_ok_run_setup [OF assms(1)]] by (simp add: world_ok_def)
  ultimately have "tracked (postCleanupEffect e ?w4) e t k" by (intro tracked_postCleanupEffect)
  then have "tracked (upd_effect e (\<lambda>ef. ef\<lparr>runnings := runnings ef - 1\<rparr>) (postCleanupEffect e ?w4)) e t k"
    by (rule tracked_upd_effect) simp
  then show ?thesis by (simp add: after_run_def)
qed

lemma deps_full_run_reads:
  assumes "world_ok w" "active (effects w e)"
  shows "depsLength (effects (after_run rs e w) e) = length (deps (effects (after_run rs e w) e))"
proof -
  let ?w4 = "fold (\<lambda>(t, k). track t k) rs (run_setup e w)"
  have "edges_ok ?w4"
    using world_ok_fold_track [OF world_ok_run_setup [OF assms(1)]] by (simp add: world_ok_def)
  then have "depsLength (effects ?w4 e) \<le> length (deps (effects ?w4 e))" by (rule edges_okD(4))
  then show ?thesis
    by (simp add: after_run_def effects_postCleanupEffect)
qed

lemma count_list_distinct: "distinct xs \<Longrightarrow> x \<in> set xs \<Longrightarrow> count_list xs x = 1"
  by (induction xs) auto

lemma dep_get_count:
  assumes "distinct (map fst (entries (dep_store w d)))" "dep_get w d e = Some i"
  shows "count_list (map fst (entries (dep_store w d))) e = 1"
proof -
  have "e \<in> set (map fst (entries (dep_store w d)))"
    using assms(2) unfolding dep_get_def by (metis map_of_eq_None_iff option.distinct(1) set_map)
  with assms(1) show ?thesis by (rule count_list_distinct)
qed

lemma edge_dedup_after_run:
  assumes "world_ok w" "active (effects w e)" "(t, k) \<in> set rs"
  shows "\<exists>d. slot (after_run rs e w) t k = Some d \<and>
             count_list (map fst (entries (dep_store (after_run rs e w) d))) e = 1 \<and>
             count_list (deps (effects (after_run rs e w) e)) d = 1"
proof -
  let ?w' = "after_run rs e w"
  have wok: "world_ok ?w'" using assms(1) run_reads_unfold [OF assms(2)] by (rule world_ok_run_reads)
  then have ok: "edges_ok ?w'" by (simp add: world_ok_def)
  from tracked_run_reads [OF assms] obtain d where
    d: "slot ?w' t k = Some d" "dep_get ?w' d e = Some (trackId (effects ?w' e))"
    unfolding tracked_def by blast
  have a: "count_list (map fst (entries (dep_store ?w' d))) e = 1"
    using edges_okD(2) [OF ok] d(2) by (rule dep_get_count)
  have full: "take (depsLength (effects ?w' e)) (deps (effects ?w' e)) = deps (effects ?w' e)"
    using deps_full_run_reads [OF assms(1,2)] by simp
  have "d \<in> set (deps (effects ?w' e))"
    using edges_okD(6) [OF ok, of d e] d(2) full by simp
  moreover have "distinct (deps (effects ?w' e))"
    using edges_okD(7) [OF ok, of e] full by simp
  ultimately have b: "count_list (deps (effects ?w' e)) d = 1"
    by (intro count_list_distinct)
  show ?thesis using d(1) a b by blast
qed

subsection \<open>Edges of earlier runs\<close>

lemma current_slots_mono: "current_slots w e S \<Longrightarrow> S \<subseteq> T \<Longrightarrow> current_slots w e T"
  unfolding current_slots_def by blast

lemma current_slots_preCleanupEffect:
  assumes "edges_ok w"
  shows "current_slots (preCleanupEffect e w) e {}"
proof -
  have "\<And>d. dep_get w d e \<noteq> Some (trackId (effects w e) + 1)"
    using edges_okD(1) [OF assms] by fastforce
  then show ?thesis by (simp add: current_slots_def dep_get_def)
qed

lemma current_slots_trackEffect:
  assumes "current_slots w e S" "cleanup (dep_store w d) = DeleteKey t k"
  shows "current_slots (trackEffect e d w) e (insert (t, k) S)"
proof (cases "dep_get w d e = Some (trackId (effects w e))")
  case True
  then show ?thesis using assms(1) by (auto simp: trackEffect_same intro: current_slots_mono)
next
  case False
  have tid: "trackId (effects (trackEffect e d w) e) = trackId (effects w e)"
    by (simp add: trackEffect_effects [OF False])
  show ?thesis
    unfolding current_slots_def tid
  proof (intro allI impI)
    fix d' assume "dep_get (trackEffect e d w) d' e = Some (trackId (effects w e))"
    then have "d' = d \<or> dep_get w d' e = Some (trackId (effects w e))"
      by (auto simp: trackEffect_dep_get [OF False] split: if_splits)
    then show "\<exists>t' k'. (t', k') \<in> insert (t, k) S \<and>
        cleanup (dep_store (trackEffect e d w) d') = DeleteKey t' k'"
      using assms unfolding current_slots_def by auto
  qed
qed

lemma current_slots_new_dep_world:
  assumes "current_slots w e S"
  shows "current_slots (new_dep_world t k w) e S"
  using assms unfolding current_slots_def
  by (auto simp: dep_get_new_dep_world cleanup_field_new_dep_world)

lemma current_slots_track:
  assumes "world_ok w" "tracking w e" "current_slots w e S"
  shows "current_slots (track t k w) e (insert (t, k) S)"
proof -
  from assms have ok: "registry_ok w" and e: "activeEffect w = Some e" "shouldTrack w"
    by (simp_all add: world_ok_def tracking_def)
  show ?thesis
  proof (cases "slot w t k")
    case (Some d)
    have "cleanup (dep_store w d) = DeleteKey t k" using slot_registry [OF ok Some] by simp
    with assms(3) show ?thesis unfolding track_existing [OF e Some]
      by (rule current_slots_trackEffect)
  next
    case None
    have "cleanup (dep_store (new_dep_world t k w) (next_dep w)) = DeleteKey t k"
      by (simp add: cleanup_field_new_dep_world)
    with current_slots_new_dep_world [OF assms(3)] show ?thesis unfolding track_fresh [OF e None]
      by (rule current_slots_trackEffect)
  qed
qed

lemma current_slots_fold_track:
  "world_ok w \<Longrightarrow> tracking w e \<Longrightarrow> current_slots w e S \<Longrightarrow>
   current_slots (fold (\<lambda>(t, k). track t k) rs w) e (S \<union> set rs)"
proof (induction rs arbitrary: w S)
  case Nil
  then show ?case by simp
next
  case (Cons r rs)
  obtain t k where r: "r = (t, k)" by (cases r)
  have "current_slots (fold (\<lambda>(t, k). track t k) rs (track t k w)) e (insert (t, k) S \<union> set rs)"
    using Cons.prems by (intro Cons.IH) (simp_all add: world_ok_track current_slots_track)
  then show ?case by (simp add: r)
qed

lemma current_slots_postCleanupEffect:
  assumes "current_slots w e S"
  shows "current_slots (postCleanupEffect e w) e S"
proof -
  have "\<And>d. dep_get (postCleanupEffect e w) d e = Some (trackId (effects w e)) \<Longrightarrow>
      dep_get w d e = Some (trackId (effects w e))"
    by (auto simp: postCleanupEffect_def Let_def dep_get_fold_cleanupDepEffect split: if_splits)
  moreover have "trackId (effects (postCleanupEffect e w) e) = trackId (effects w e)"
    by (simp add: effects_postCleanupEffect)
  moreover have "\<And>d. cleanup (dep_store (postCleanupEffect e w) d) = cleanup (dep_store w d)"
    by (simp add: postCleanupEffect_def Let_def)
  ultimately show ?thesis using assms unfolding current_slots_def by auto
qed

lemma current_slots_run_reads:
  assumes "world_ok w" "active (effects w e)"
  shows "current_slots (after_run rs e w) e (set rs)"
proof -
  let ?w3 = "run_setup e w"
  let ?w4 = "fold (\<lambda>(t, k). track t k) rs ?w3"
  have "current_slots ?w3 e {}"
    unfolding run_setup_def using assms(1)
    by (intro current_slots_preCleanupEffect) (simp add: world_ok_def)
  then have "current_slots ?w4 e ({} \<union> set rs)"
    using world_ok_run_setup [OF assms(1)] tracking_run_setup by (intro current_slots_fold_track)
  then have "current_slots (postCleanupEffect e ?w4) e (set rs)"
    by (intro current_slots_postCleanupEffect) simp
  then show ?thesis
    by (simp add: after_run_def current_slots_def dep_get_def)
qed

lemma track_keeps_deps:
  "next_dep w \<le> next_dep (track t k w) \<and>
   (\<forall>d < next_dep w. cleanup (dep_store (track t k w) d) = cleanup (dep_store w d))"
  by (auto simp: track_def Let_def createDep_def split: option.splits)

lemma fold_track_keeps_deps:
  "next_dep w \<le> next_dep (fold (\<lambda>(t, k). track t k) rs w) \<and>
   (\<forall>d < next_dep w. cleanup (dep_store (fold (\<lambda>(t, k). track t k) rs w) d) = cleanup (dep_store w d))"
proof (induction rs arbitrary: w)
  case Nil
  show ?case by simp
next
  case (Cons r rs)
  obtain t k where r: "r = (t, k)" by (cases r)
  from Cons.IH [of "track t k w"] track_keeps_deps [of w t k]
  show ?case unfolding r by (auto simp del: fold_simps simp add: fold_Cons) 
qed

lemma run_reads_keeps_cleanup:
  assumes "active (effects w e)" "d < next_dep w"
  shows "cleanup (dep_store (after_run rs e w) d) = cleanup (dep_store w d)"
proof -
  have "next_dep (run_setup e w) = next_dep w"
    "cleanup (dep_store (run_setup e w) d) = cleanup (dep_store w d)"
    by (simp_all add: run_setup_def)
  with fold_track_keeps_deps [of "run_setup e w" rs] assms(2)
  have "cleanup (dep_store (fold (\<lambda>(t, k). track t k) rs (run_setup e w)) d) = cleanup (dep_store w d)"
    by auto
  then show ?thesis
    by (simp add: after_run_def postCleanupEffect_def Let_def)
qed

lemma no_stale_edges_after_run:
  assumes "world_ok w" "active (effects w e)" "(t, k) \<notin> set rs" "slot w t k = Some d"
  shows "e \<notin> fst ` set (entries (dep_store (after_run rs e w) d)) \<and>
         d \<notin> set (deps (effects (after_run rs e w) e)) \<and>
         (\<forall>d'. slot (after_run rs e w) t k = Some d' \<longrightarrow>
               e \<notin> fst ` set (entries (dep_store (after_run rs e w) d')))"
proof -
  let ?w' = "after_run rs e w"
  have wok: "world_ok ?w'" using assms(1) run_reads_unfold [OF assms(2)] by (rule world_ok_run_reads)
  then have ok: "edges_ok ?w'" and reg: "registry_ok ?w'" by (simp_all add: world_ok_def)
  have full: "take (depsLength (effects ?w' e)) (deps (effects ?w' e)) = deps (effects ?w' e)"
    using deps_full_run_reads [OF assms(1,2)] by simp
  have cs: "current_slots ?w' e (set rs)" using assms(1,2) by (rule current_slots_run_reads)
  have key: "\<And>d'. cleanup (dep_store ?w' d') = DeleteKey t k \<Longrightarrow>
      dep_get ?w' d' e = None \<and> d' \<notin> set (deps (effects ?w' e))"
  proof -
    fix d' assume cl: "cleanup (dep_store ?w' d') = DeleteKey t k"
    have notcur: "dep_get ?w' d' e \<noteq> Some (trackId (effects ?w' e))"
    proof
      assume "dep_get ?w' d' e = Some (trackId (effects ?w' e))"
      with cs obtain t' k' where "(t', k') \<in> set rs" "cleanup (dep_store ?w' d') = DeleteKey t' k'"
        unfolding current_slots_def by blast
      with cl assms(3) show False by simp
    qed
    then have nd: "d' \<notin> set (deps (effects ?w' e))"
      using edges_okD(6) [OF ok, of d' e] full by simp
    then have "dep_get ?w' d' e = None" using edges_okD(3) [OF ok, of d' e] by blast
    with nd show "dep_get ?w' d' e = None \<and> d' \<notin> set (deps (effects ?w' e))" by simp
  qed
  have regw: "registry_ok w" using assms(1) by (simp add: world_ok_def)
  have "cleanup (dep_store ?w' d) = DeleteKey t k"
    using slot_registry [OF regw assms(4)] run_reads_keeps_cleanup [OF assms(2), of d rs] by simp
  from key [OF this] have a: "dep_get ?w' d e = None" "d \<notin> set (deps (effects ?w' e))" by simp_all
  have b: "\<forall>d'. slot ?w' t k = Some d' \<longrightarrow> dep_get ?w' d' e = None"
    using slot_registry [OF reg] key by blast
  show ?thesis using a b by (simp add: dep_get_def map_of_eq_None_iff)
qed

text \<open>
  Claim C1. An active effect \<open>e\<close> runs, and its function reads the properties \<open>rs\<close>,
  \<open>(t, k)\<close> among them, any number of times. Then the run returns, and in the state it
  leaves the target map has a dep for \<open>(t, k)\<close> that holds \<open>e\<close> exactly once, and
  \<^verbatim>\<open>e.deps\<close> holds that dep exactly once.
\<close>

theorem edge_dedup:
  assumes "world_ok w" "active (effects w e)" "(t, k) \<in> set rs"
  shows "\<exists>w' d. run (reads rs) e w = Some ((), w') \<and>
             slot w' t k = Some d \<and>
             count_list (map fst (entries (dep_store w' d))) e = 1 \<and>
             count_list (deps (effects w' e)) d = 1"
  using run_reads_unfold [OF assms(2)] edge_dedup_after_run [OF assms] by blast

text \<open>
  Claim C2. An active effect \<open>e\<close> runs and its function reads the properties \<open>rs\<close>,
  \<open>(t, k)\<close> not among them. Let \<open>d\<close> be the dep of \<open>(t, k)\<close> before the run (which
  holds \<open>e\<close> if an earlier run read \<open>(t, k)\<close>). In the state the run leaves, \<open>e\<close> is not
  in \<open>d\<close>, \<open>d\<close> is not in \<^verbatim>\<open>e.deps\<close>, and a dep that the target map then has for
  \<open>(t, k)\<close> does not hold \<open>e\<close> either.
\<close>

theorem no_stale_edges:
  assumes "world_ok w" "active (effects w e)" "(t, k) \<notin> set rs" "slot w t k = Some d"
  shows "\<exists>w'. run (reads rs) e w = Some ((), w') \<and>
           e \<notin> fst ` set (entries (dep_store w' d)) \<and>
           d \<notin> set (deps (effects w' e)) \<and>
           (\<forall>d'. slot w' t k = Some d' \<longrightarrow> e \<notin> fst ` set (entries (dep_store w' d')))"
  using run_reads_unfold [OF assms(2)] no_stale_edges_after_run [OF assms] by blast

lemmas eval_defs =
  after_run_def run_setup_def run_def reads_def track_def trackEffect_def Let_def world0_def effect0_def
  createDep_def slot_def preCleanupEffect_def postCleanupEffect_def upd_effect_def dep_get_def
  dep_set_def upd_dep_def array_put_def cleanupDepEffect_def dep_delete_def dep_size_def
  dep_cleanup_def present_def stop_def

lemma ab_world_facts:
  "active (effects ab_world 0)"
  "slot ab_world 0 (Key 0) = Some 0"
  "entries (dep_store ab_world 0) = [(0, 1)]"
  "deps (effects ab_world 0) = [0, 1]"
  "cleanups ab_world = []"
  "trackId (effects ab_world 0) = 1"
  "onStop_calls ab_world = []"
  by (simp_all add: ab_world_def eval_defs)

lemma world_ok_ab_world: "world_ok ab_world"
  unfolding ab_world_def
  by (rule world_ok_run_reads [OF world_ok_world0 run_reads_unfold]) (simp add: world0_def effect0_def)

theorem edge_dedup_witness:
  "\<exists>w' d. run (reads [(0, Key 0), (0, Key 0), (0, Key 1), (0, Key 0)]) 0 world0 = Some ((), w') \<and>
      slot w' 0 (Key 0) = Some d \<and>
      count_list (map fst (entries (dep_store w' d))) 0 = 1 \<and>
      count_list (deps (effects w' 0)) d = 1"
  using edge_dedup [OF world_ok_world0, of 0 0 "Key 0" "[(0, Key 0), (0, Key 0), (0, Key 1), (0, Key 0)]"]
  by (simp add: world0_def effect0_def)

theorem no_stale_edges_witness:
  "0 \<in> fst ` set (entries (dep_store ab_world 0)) \<and> 0 \<in> set (deps (effects ab_world 0)) \<and>
   (\<exists>w'. run (reads [(0, Key 1)]) 0 ab_world = Some ((), w') \<and>
      0 \<notin> fst ` set (entries (dep_store w' 0)) \<and>
      0 \<notin> set (deps (effects w' 0)) \<and>
      (\<forall>d'. slot w' 0 (Key 0) = Some d' \<longrightarrow> 0 \<notin> fst ` set (entries (dep_store w' d'))))"
proof -
  have "(0, Key 0) \<notin> set [(0, Key 1)]" by simp
  from no_stale_edges [OF world_ok_ab_world ab_world_facts(1) this ab_world_facts(2)]
  show ?thesis by (simp add: ab_world_facts)
qed

theorem empty_dep_cleanup_witness:
  "present ab_world 0 \<and>
   cleanups (cleanupDepEffect 0 0 (preCleanupEffect 0 ab_world)) = [0] \<and>
   \<not> present (cleanupDepEffect 0 0 (preCleanupEffect 0 ab_world)) 0"
proof -
  let ?w = "preCleanupEffect 0 ab_world"
  have ok: "registry_ok ?w" using world_ok_ab_world by (simp add: world_ok_def)
  have a: "entries (dep_store ?w 0) = [(0, 1)]" by (simp add: ab_world_facts)
  have b: "entries (dep_store (cleanupDepEffect 0 0 ?w) 0) = []"
    by (simp add: cleanupDepEffect_def dep_get_def ab_world_facts dep_delete_def dep_size_def Let_def)
  have c: "cleanups ?w = []" by (simp add: ab_world_facts)
  have p: "present ab_world 0"
    using ab_world_facts(2) by (auto simp: present_def slot_def split: option.splits)
  from empty_dep_cleanup [OF ok, of 0 0] a b c p show ?thesis by simp
qed

theorem stop_idempotent_witness:
  "stop 0 (stop 0 onstop_world) = stop 0 onstop_world \<and>
   \<not> active (effects (stop 0 onstop_world) 0) \<and>
   onStop_calls (stop 0 (stop 0 (stop 0 onstop_world))) = [0]"
proof -
  have "onStop_calls (stop 0 onstop_world) = [0]"
    by (simp add: onStop_calls_stop onstop_world_def ab_world_facts)
  with stop_idempotent [of 0 onstop_world 2] show ?thesis by simp
qed

section \<open>Computed refs: caching\<close>

subsection \<open>Steps that change the dependency graph only\<close>

lemma quiet_refl: "quiet w w"
  by (simp add: quiet_def)

lemma quiet_trans: "quiet w w' \<Longrightarrow> quiet w' w'' \<Longrightarrow> quiet w w''"
  by (simp add: quiet_def)

lemma quiet_upd_dep: "quiet w (upd_dep d f w)"
  by (simp add: quiet_def upd_dep_def)

lemma quiet_upd_effect:
  assumes "\<And>ef. dirtyLevel (f ef) = dirtyLevel ef \<and> active (f ef) = active ef \<and>
                 computed (f ef) = computed ef \<and> scheduler (f ef) = scheduler ef"
  shows "quiet w (upd_effect e f w)"
  using assms by (simp add: quiet_def upd_effect_def)

lemma quiet_dep_cleanup: "quiet w (dep_cleanup d w)"
  by (simp add: quiet_def dep_cleanup_def Let_def split: cleanup.splits option.splits)

lemma quiet_cleanupDepEffect: "quiet w (cleanupDepEffect d e w)"
  using quiet_trans [OF quiet_upd_dep quiet_dep_cleanup]
  by (simp add: cleanupDepEffect_def dep_delete_def Let_def quiet_refl quiet_upd_dep split: option.splits)

lemma quiet_fold_cleanupDepEffect: "quiet w (fold (\<lambda>d. cleanupDepEffect d e) ds w)"
proof (induction ds arbitrary: w)
  case Nil
  show ?case by (simp add: quiet_refl)
next
  case (Cons d ds)
  show ?case using quiet_trans [OF quiet_cleanupDepEffect Cons.IH] by simp
qed

lemma quiet_preCleanupEffect: "quiet w (preCleanupEffect e w)"
  unfolding preCleanupEffect_def by (rule quiet_upd_effect) simp

lemma quiet_postCleanupEffect: "quiet w (postCleanupEffect e w)"
proof -
  have "quiet w (upd_effect e (\<lambda>ef'. ef'\<lparr>deps := g ef'\<rparr>) (fold (\<lambda>d. cleanupDepEffect d e) ds w))" for g ds
    by (rule quiet_trans [OF quiet_fold_cleanupDepEffect]) (rule quiet_upd_effect, simp)
  then show ?thesis
    by (simp add: postCleanupEffect_def Let_def quiet_refl)
qed

lemma quiet_trackEffect_trans: "quiet w w' \<Longrightarrow> quiet w (trackEffect e d w')"
proof -
  have 1: "quiet w' (dep_set d' e i w')" for i d'
    unfolding dep_set_def by (rule quiet_upd_dep)
  have 2: "quiet w' (cleanupDepEffect od e (dep_set d' e i w'))" for od i d'
    by (rule quiet_trans [OF 1 quiet_cleanupDepEffect])
  have 3: "quiet w' w'' \<Longrightarrow> quiet w' (upd_effect e (\<lambda>ef'. ef'\<lparr>deps := g ef', depsLength := h ef'\<rparr>) w'')" for w'' g h
    by (erule quiet_trans) (rule quiet_upd_effect, simp)
  have 4: "quiet w' w'' \<Longrightarrow> quiet w' (upd_effect e (\<lambda>ef'. ef'\<lparr>depsLength := h ef'\<rparr>) w'')" for w'' h
    by (erule quiet_trans) (rule quiet_upd_effect, simp)
  have "quiet w' (trackEffect e d w')"
    unfolding trackEffect_def Let_def
    by (auto simp: quiet_refl intro!: 3 4 1 2 split: option.splits)
  then show "quiet w w' \<Longrightarrow> quiet w (trackEffect e d w')"
    by (rule quiet_trans [rotated])
qed

lemma quiet_track: "quiet w (track t k w)"
  unfolding track_def Let_def
  apply (auto simp: quiet_refl createDep_def split: option.splits prod.splits intro!: quiet_trackEffect_trans)
  apply (simp_all add: quiet_def)
  done

lemma quiet_fold_track: "quiet w (fold (\<lambda>(t, k). track t k) rs w)"
proof (induction rs arbitrary: w)
  case Nil
  show ?case by (simp add: quiet_refl)
next
  case (Cons a rs)
  show ?case using quiet_trans [OF quiet_track Cons.IH] by (simp add: split_def)
qed

lemma quiet_trackRefValue: "quiet w (trackRefValue c w)"
  unfolding trackRefValue_def Let_def
  apply (auto simp: quiet_refl createDep_def split: option.splits prod.splits intro!: quiet_trackEffect_trans)
  apply (simp_all add: quiet_def)
  done

lemma no_new_ref_dep_refl: "no_new_ref_dep w w"
  by (simp add: no_new_ref_dep_def)

lemma no_new_ref_dep_trans: "no_new_ref_dep w w' \<Longrightarrow> no_new_ref_dep w' w'' \<Longrightarrow> no_new_ref_dep w w''"
  by (simp add: no_new_ref_dep_def)

lemma no_new_ref_dep_same: "computeds w' = computeds w \<Longrightarrow> no_new_ref_dep w w'"
  by (simp add: no_new_ref_dep_def)

lemma no_new_ref_dep_dep_cleanup: "no_new_ref_dep w (dep_cleanup d w)"
  by (simp add: no_new_ref_dep_def dep_cleanup_def Let_def split: cleanup.splits option.splits)

lemma no_new_ref_dep_cleanupDepEffect: "no_new_ref_dep w (cleanupDepEffect d e w)"
  using no_new_ref_dep_trans [OF no_new_ref_dep_same no_new_ref_dep_dep_cleanup, of "upd_dep d f w" w d for f]
  by (simp add: cleanupDepEffect_def dep_delete_def Let_def no_new_ref_dep_refl no_new_ref_dep_same split: option.splits)

lemma no_new_ref_dep_fold_cleanupDepEffect: "no_new_ref_dep w (fold (\<lambda>d. cleanupDepEffect d e) ds w)"
proof (induction ds arbitrary: w)
  case Nil
  show ?case by (simp add: no_new_ref_dep_refl)
next
  case (Cons d ds)
  show ?case using no_new_ref_dep_trans [OF no_new_ref_dep_cleanupDepEffect Cons.IH] by simp
qed

lemma no_new_ref_dep_postCleanupEffect: "no_new_ref_dep w (postCleanupEffect e w)"
proof -
  have "no_new_ref_dep w (upd_effect e g (fold (\<lambda>d. cleanupDepEffect d e) ds w))" for g ds
    by (rule no_new_ref_dep_trans [OF no_new_ref_dep_fold_cleanupDepEffect]) (rule no_new_ref_dep_same, simp)
  then show ?thesis
    by (simp add: postCleanupEffect_def Let_def no_new_ref_dep_refl)
qed

lemma no_new_ref_dep_trackEffect_trans: "no_new_ref_dep w w' \<Longrightarrow> no_new_ref_dep w (trackEffect e d w')"
proof -
  have 1: "no_new_ref_dep w' (dep_set d' e i w')" for i d'
    unfolding dep_set_def by (rule no_new_ref_dep_same) simp
  have 2: "no_new_ref_dep w' (cleanupDepEffect od e (dep_set d' e i w'))" for od i d'
    by (rule no_new_ref_dep_trans [OF 1 no_new_ref_dep_cleanupDepEffect])
  have 3: "no_new_ref_dep w' w'' \<Longrightarrow> no_new_ref_dep w' (upd_effect e g w'')" for w'' g
    by (erule no_new_ref_dep_trans) (rule no_new_ref_dep_same, simp)
  have "no_new_ref_dep w' (trackEffect e d w')"
    unfolding trackEffect_def Let_def
    by (auto simp: no_new_ref_dep_refl intro!: 3 1 2 split: option.splits)
  then show "no_new_ref_dep w w' \<Longrightarrow> no_new_ref_dep w (trackEffect e d w')"
    by (rule no_new_ref_dep_trans [rotated])
qed

lemma no_new_ref_dep_track: "no_new_ref_dep w (track t k w)"
  unfolding track_def Let_def
  apply (auto simp: no_new_ref_dep_refl createDep_def split: option.splits prod.splits intro!: no_new_ref_dep_trackEffect_trans)
  apply (simp_all add: no_new_ref_dep_def)
  done

lemma no_new_ref_dep_fold_track: "no_new_ref_dep w (fold (\<lambda>(t, k). track t k) rs w)"
proof (induction rs arbitrary: w)
  case Nil
  show ?case by (simp add: no_new_ref_dep_refl)
next
  case (Cons a rs)
  show ?case using no_new_ref_dep_trans [OF no_new_ref_dep_track Cons.IH] by (simp add: split_def)
qed

lemma exec_ops_reads:
  "exec_ops rec n (map (\<lambda>(t, k). Get t k) rs) w = Some (fold (\<lambda>(t, k). track t k) rs w)"
  by (induction rs arbitrary: w) (simp_all add: split_def)

lemma level_cases:
  "level l < level MaybeDirty_ComputedSideEffect \<longleftrightarrow> l = NotDirty \<or> l = QueryingDirty"
  "level l \<ge> level Dirty \<longleftrightarrow> l = Dirty"
  "level l \<ge> level MaybeDirty_ComputedSideEffect \<longleftrightarrow> l \<noteq> NotDirty \<and> l \<noteq> QueryingDirty"
  by (cases l; simp)+

text \<open>A read of a computed that is known to be clean.\<close>

lemma computed_value_clean:
  assumes "c_cacheable (computeds w c)"
    and "level (dirtyLevel (effects w (c_effect (computeds w c)))) < level MaybeDirty_ComputedSideEffect"
  shows "computed_value rec n c w = Some (c_value (computeds w c), trackRefValue c w)"
proof -
  let ?e = "c_effect (computeds w c)"
  have l: "dirtyLevel (effects w ?e) = NotDirty \<or> dirtyLevel (effects w ?e) = QueryingDirty"
    using assms(2) by (cases "dirtyLevel (effects w ?e)"; simp)
  then have d: "effect_dirty rec n ?e w = Some (False, w)"
    by (auto simp: effect_dirty_def)
  have q: "quiet w (trackRefValue c w)"
    by (rule quiet_trackRefValue)
  then have l': "dirtyLevel (effects (trackRefValue c w) ?e) = dirtyLevel (effects w ?e)"
    and v: "c_value (computeds (trackRefValue c w) c) = c_value (computeds w c)"
    by (simp_all add: quiet_def)
  have "\<not> level MaybeDirty_ComputedSideEffect \<le> level (dirtyLevel (effects (trackRefValue c w) ?e))"
    using l l' by auto
  then show ?thesis
    using assms(1) d v by (simp add: computed_value_def Let_def)
qed

subsection \<open>A getter that only reads\<close>

lemma exec_fn_reads_only:
  assumes "prog e (fn_calls w e) = (map (\<lambda>(t, k). Get t k) rs, r)"
  shows "\<exists>w'. exec_fn prog rec n e w = Some (r, w') \<and>
           fn_calls w' = (fn_calls w)(e := Suc (fn_calls w e)) \<and>
           fn_results w' = (fn_results w)(e := Some r) \<and>
           (\<forall>x. dirtyLevel (effects w' x) = dirtyLevel (effects w x)) \<and>
           (\<forall>c. c_value (computeds w' c) = c_value (computeds w c) \<and>
                c_effect (computeds w' c) = c_effect (computeds w c) \<and>
                c_cacheable (computeds w' c) = c_cacheable (computeds w c)) \<and>
           no_new_ref_dep w w'"
proof -
  let ?wb = "w\<lparr>fn_calls := (fn_calls w)(e := fn_calls w e + 1)\<rparr>"
  let ?wc = "fold (\<lambda>(t, k). track t k) rs ?wb"
  let ?wd = "?wc\<lparr>fn_results := (fn_results ?wc)(e := Some r)\<rparr>"
  have ex: "exec_fn prog rec n e w = Some (r, ?wd)"
    using assms by (simp add: exec_fn_def exec_ops_reads)
  have q: "quiet ?wb ?wc"
    by (rule quiet_fold_track)
  have nd: "no_new_ref_dep ?wb ?wc"
    by (rule no_new_ref_dep_fold_track)
  have 1: "fn_calls ?wd = (fn_calls w)(e := Suc (fn_calls w e))"
    using q by (simp add: quiet_def)
  have 2: "fn_results ?wd = (fn_results w)(e := Some r)"
    using q by (simp add: quiet_def)
  have 3: "\<forall>x. dirtyLevel (effects ?wd x) = dirtyLevel (effects w x)"
    using q by (simp add: quiet_def)
  have 4: "\<forall>c. c_value (computeds ?wd c) = c_value (computeds w c) \<and>
                c_effect (computeds ?wd c) = c_effect (computeds w c) \<and>
                c_cacheable (computeds ?wd c) = c_cacheable (computeds w c)"
    using q by (simp add: quiet_def)
  have 5: "no_new_ref_dep w ?wd"
    using nd by (simp add: no_new_ref_dep_def)
  from ex 1 2 3 4 5 show ?thesis
    by blast
qed

lemma run_reads_only:
  assumes "prog e (fn_calls w e) = (map (\<lambda>(t, k). Get t k) rs, r)"
  shows "\<exists>w'. run (exec_fn prog rec n e) e w = Some (r, w') \<and>
           fn_calls w' = (fn_calls w)(e := Suc (fn_calls w e)) \<and>
           fn_results w' = (fn_results w)(e := Some r) \<and>
           dirtyLevel (effects w' e) = NotDirty \<and>
           (\<forall>c. c_value (computeds w' c) = c_value (computeds w c) \<and>
                c_effect (computeds w' c) = c_effect (computeds w c) \<and>
                c_cacheable (computeds w' c) = c_cacheable (computeds w c)) \<and>
           no_new_ref_dep w w'"
proof -
  let ?w0 = "upd_effect e (\<lambda>ef. ef\<lparr>dirtyLevel := NotDirty\<rparr>) w"
  show ?thesis
  proof (cases "active (effects w e)")
    case False
    have p: "prog e (fn_calls ?w0 e) = (map (\<lambda>(t, k). Get t k) rs, r)"
      using assms by (simp add: upd_effect_def)
    from exec_fn_reads_only [where prog = prog and e = e and w = ?w0 and rs = rs and r = r and rec = rec and n = n, OF p]
    obtain w' where
      w': "exec_fn prog rec n e ?w0 = Some (r, w')"
        "fn_calls w' = (fn_calls ?w0)(e := Suc (fn_calls ?w0 e))"
        "fn_results w' = (fn_results ?w0)(e := Some r)"
        "\<forall>x. dirtyLevel (effects w' x) = dirtyLevel (effects ?w0 x)"
        "\<forall>c. c_value (computeds w' c) = c_value (computeds ?w0 c) \<and>
                c_effect (computeds w' c) = c_effect (computeds ?w0 c) \<and>
                c_cacheable (computeds w' c) = c_cacheable (computeds ?w0 c)"
        "no_new_ref_dep ?w0 w'"
      by blast
    have r: "run (exec_fn prog rec n e) e w = Some (r, w')"
      using False w'(1) by (simp add: run_def Let_def)
    show ?thesis
      using r w'(2-6) by (simp add: upd_effect_def no_new_ref_dep_def)
  next
    case True
    let ?w3 = "preCleanupEffect e (upd_effect e (\<lambda>ef. ef\<lparr>runnings := runnings ef + 1\<rparr>)
                 (?w0\<lparr>shouldTrack := True, activeEffect := Some e\<rparr>))"
    have p: "prog e (fn_calls ?w3 e) = (map (\<lambda>(t, k). Get t k) rs, r)"
      using assms by (simp add: upd_effect_def preCleanupEffect_def)
    from exec_fn_reads_only [where prog = prog and e = e and w = ?w3 and rs = rs and r = r and rec = rec and n = n, OF p]
    obtain w4 where
      w4: "exec_fn prog rec n e ?w3 = Some (r, w4)"
        "fn_calls w4 = (fn_calls ?w3)(e := Suc (fn_calls ?w3 e))"
        "fn_results w4 = (fn_results ?w3)(e := Some r)"
        "\<forall>x. dirtyLevel (effects w4 x) = dirtyLevel (effects ?w3 x)"
        "\<forall>c. c_value (computeds w4 c) = c_value (computeds ?w3 c) \<and>
                c_effect (computeds w4 c) = c_effect (computeds ?w3 c) \<and>
                c_cacheable (computeds w4 c) = c_cacheable (computeds ?w3 c)"
        "no_new_ref_dep ?w3 w4"
      by blast
    let ?w5 = "postCleanupEffect e w4"
    let ?w7 = "(upd_effect e (\<lambda>ef. ef\<lparr>runnings := runnings ef - 1\<rparr>) ?w5)
                 \<lparr>activeEffect := activeEffect ?w0, shouldTrack := shouldTrack ?w0\<rparr>"
    have r: "run (exec_fn prog rec n e) e w = Some (r, ?w7)"
      using True w4(1) by (simp add: run_def Let_def)
    have q: "quiet w4 ?w5"
      by (rule quiet_postCleanupEffect)
    have nd: "no_new_ref_dep w4 ?w5"
      by (rule no_new_ref_dep_postCleanupEffect)
    have 1: "fn_calls ?w7 = (fn_calls w)(e := Suc (fn_calls w e))"
      using q w4(2) by (simp add: quiet_def upd_effect_def preCleanupEffect_def)
    have 2: "fn_results ?w7 = (fn_results w)(e := Some r)"
      using q w4(3) by (simp add: quiet_def upd_effect_def preCleanupEffect_def)
    have "dirtyLevel (effects ?w5 e) = NotDirty"
      using q w4(4) by (simp add: quiet_def upd_effect_def preCleanupEffect_def)
    then have 3: "dirtyLevel (effects ?w7 e) = NotDirty"
      by (simp add: upd_effect_def)
    have 4: "\<forall>c. c_value (computeds ?w7 c) = c_value (computeds w c) \<and>
                c_effect (computeds ?w7 c) = c_effect (computeds w c) \<and>
                c_cacheable (computeds ?w7 c) = c_cacheable (computeds w c)"
      using q w4(5) by (simp add: quiet_def upd_effect_def preCleanupEffect_def)
    have 5: "no_new_ref_dep w ?w7"
      using nd w4(6) by (simp add: no_new_ref_dep_def upd_effect_def preCleanupEffect_def)
    from r 1 2 3 4 5 show ?thesis
      by blast
  qed
qed

lemma two_reads_of_reading_getter:
  assumes "c_cacheable (computeds w c)"
    and "dirtyLevel (effects w (c_effect (computeds w c))) = Dirty"
    and "c_dep (computeds w c) = None \<or> c_value (computeds w c) = Some r"
    and "prog (c_effect (computeds w c)) (fn_calls w (c_effect (computeds w c))) =
           (map (\<lambda>(t, k). Get t k) rs, r)"
  shows "\<exists>w1 w2. read_value prog (Suc (Suc n)) c w = Some (Some r, w1) \<and>
           read_value prog (Suc m) c w1 = Some (Some r, w2) \<and>
           fn_calls w1 = (fn_calls w)(c_effect (computeds w c) := Suc (fn_calls w (c_effect (computeds w c)))) \<and>
           fn_calls w2 = fn_calls w1 \<and>
           dirtyLevel (effects w1 (c_effect (computeds w c))) = NotDirty \<and>
           c_value (computeds w1 c) = fn_results w1 (c_effect (computeds w c)) \<and>
           dirtyLevel (effects w2 (c_effect (computeds w c))) = NotDirty \<and>
           c_value (computeds w2 c) = fn_results w2 (c_effect (computeds w c))"
proof -
  let ?e = "c_effect (computeds w c)"
  define rec where "rec = interp prog (Suc n)"
  have d: "effect_dirty rec (Suc (Suc n)) ?e w = Some (True, w)"
    using assms(2) by (simp add: effect_dirty_def)
  have fn: "call_fn rec ?e = exec_fn prog (interp prog n) (Suc n) ?e"
    by (simp add: rec_def)
  have cv: "read_value prog (Suc (Suc n)) c w = computed_value rec (Suc (Suc n)) c w"
    by (simp add: read_value_def rec_def)
  from run_reads_only [where prog = prog and e = ?e and w = w and rs = rs and r = r
      and rec = "interp prog n" and n = "Suc n", OF assms(4)]
  obtain w' where w':
    "run (exec_fn prog (interp prog n) (Suc n) ?e) ?e w = Some (r, w')"
    "fn_calls w' = (fn_calls w)(?e := Suc (fn_calls w ?e))"
    "fn_results w' = (fn_results w)(?e := Some r)"
    "dirtyLevel (effects w' ?e) = NotDirty"
    "\<forall>c. c_value (computeds w' c) = c_value (computeds w c) \<and>
         c_effect (computeds w' c) = c_effect (computeds w c) \<and>
         c_cacheable (computeds w' c) = c_cacheable (computeds w c)"
    "no_new_ref_dep w w'"
    by blast
  let ?w3 = "w'\<lparr>computeds := (computeds w')(c := (computeds w' c)\<lparr>c_value := Some r\<rparr>)\<rparr>"
  let ?w1 = "trackRefValue c ?w3"
  let ?w2 = "trackRefValue c ?w1"
  have t: "(if hasChanged (c_value (computeds w c)) (Some r)
            then triggerRefValue rec c Dirty ?w3 else Some ?w3) = Some ?w3"
  proof (cases "c_dep (computeds w c) = None")
    case True
    then have "c_dep (computeds w' c) = None"
      using w'(6) by (simp add: no_new_ref_dep_def)
    then show ?thesis
      by (simp add: triggerRefValue_def)
  next
    case False
    then show ?thesis
      using assms(3) by (auto simp: hasChanged_def)
  qed
  have q1: "quiet ?w3 ?w1"
    by (rule quiet_trackRefValue)
  have q2: "quiet ?w1 ?w2"
    by (rule quiet_trackRefValue)
  have l1: "dirtyLevel (effects ?w1 ?e) = NotDirty"
    using q1 w'(4) by (simp add: quiet_def)
  have v1: "c_value (computeds ?w1 c) = Some r"
    using q1 by (simp add: quiet_def)
  have e1: "c_effect (computeds ?w1 c) = ?e"
    using q1 w'(5) by (simp add: quiet_def)
  have c1: "c_cacheable (computeds ?w1 c)"
    using q1 w'(5) assms(1) by (simp add: quiet_def)
  have f1: "fn_calls ?w1 = (fn_calls w)(?e := Suc (fn_calls w ?e))"
    using q1 w'(2) by (simp add: quiet_def)
  have r1: "fn_results ?w1 ?e = Some r"
    using q1 w'(3) by (simp add: quiet_def)
  have first: "read_value prog (Suc (Suc n)) c w = Some (Some r, ?w1)"
    unfolding cv using assms(1) d w'(1) t l1 v1
    by (simp add: computed_value_def Let_def fn)
  have "computed_value (interp prog m) (Suc m) c ?w1 = Some (c_value (computeds ?w1 c), ?w2)"
    by (rule computed_value_clean [OF c1]) (simp add: e1 l1)
  then have second: "read_value prog (Suc m) c ?w1 = Some (Some r, ?w2)"
    using v1 by (simp add: read_value_def)
  have f2: "fn_calls ?w2 = fn_calls ?w1"
    using q2 by (simp add: quiet_def)
  have l2: "dirtyLevel (effects ?w2 ?e) = NotDirty"
    using q2 l1 by (simp add: quiet_def)
  have v2: "c_value (computeds ?w2 c) = Some r"
    using q2 v1 by (simp add: quiet_def)
  have r2: "fn_results ?w2 ?e = Some r"
    using q2 r1 by (simp add: quiet_def)
  from first second f1 f2 l1 v1 r1 l2 v2 r2 show ?thesis
    by (intro exI [of _ ?w1] exI [of _ ?w2]) simp
qed

subsection \<open>The invariant of the computed refs\<close>

lemma soundD:
  assumes "sound b E K rec"
  shows "computeds_inv b E K w \<Longrightarrow> call_value rec c w = Some (v, w') \<Longrightarrow> computeds_inv b E K w'"
    and "computeds_inv b E K w \<Longrightarrow> call_triggerEffects rec d l w = Some w' \<Longrightarrow> computeds_inv b E K w'"
    and "computeds_inv b E K w \<Longrightarrow> call_scheduler rec e w = Some w' \<Longrightarrow> computeds_inv b E K w'"
    and "computeds_inv b E K w \<Longrightarrow> call_fn rec e w = Some (r, w') \<Longrightarrow> fn_inv b E K e r w'"
proof -
  show "computeds_inv b E K w \<Longrightarrow> call_value rec c w = Some (v, w') \<Longrightarrow> computeds_inv b E K w'"
    using assms unfolding sound_def by blast
  show "computeds_inv b E K w \<Longrightarrow> call_triggerEffects rec d l w = Some w' \<Longrightarrow> computeds_inv b E K w'"
    using assms unfolding sound_def by blast
  show "computeds_inv b E K w \<Longrightarrow> call_scheduler rec e w = Some w' \<Longrightarrow> computeds_inv b E K w'"
    using assms unfolding sound_def by blast
  show "computeds_inv b E K w \<Longrightarrow> call_fn rec e w = Some (r, w') \<Longrightarrow> fn_inv b E K e r w'"
    using assms unfolding sound_def by blast
qed

lemma computeds_inv_view: "view w' = view w \<Longrightarrow> computeds_inv b E K w' = computeds_inv b E K w"
proof -
  assume v: "view w' = view w"
  then have 1: "fn_results w' = fn_results w"
    and 2: "\<And>e. scheduler (effects w' e) = scheduler (effects w e)"
    and 3: "\<And>c. c_value (computeds w' c) = c_value (computeds w c)"
    and 4: "\<And>c. c_effect (computeds w' c) = c_effect (computeds w c)"
    and 5: "\<And>c. c_cacheable (computeds w' c) = c_cacheable (computeds w c)"
    by (auto simp: view_def fun_eq_iff)
  show ?thesis
    by (simp add: computeds_inv_def 1 2 3 4 5)
qed

lemma fn_inv_view: "view w' = view w \<Longrightarrow> fn_inv b E K e r w' = fn_inv b E K e r w"
proof -
  assume v: "view w' = view w"
  then have 1: "fn_results w' = fn_results w"
    and 2: "\<And>e. scheduler (effects w' e) = scheduler (effects w e)"
    and 3: "\<And>c. c_value (computeds w' c) = c_value (computeds w c)"
    and 4: "\<And>c. c_effect (computeds w' c) = c_effect (computeds w c)"
    and 5: "\<And>c. c_cacheable (computeds w' c) = c_cacheable (computeds w c)"
    by (auto simp: view_def fun_eq_iff)
  show ?thesis
    by (simp add: fn_inv_def 1 2 3 4 5)
qed

lemma view_quiet: "quiet w w' \<Longrightarrow> view w' = view w"
  by (simp add: quiet_def view_def)

lemma view_upd_effect:
  "(\<And>ef. scheduler (f ef) = scheduler ef) \<Longrightarrow> view (upd_effect e f w) = view w"
  by (simp add: view_def upd_effect_def fun_eq_iff)

lemma view_steps [simp]:
  "view (track t k w) = view w"
  "view (trackRefValue c w) = view w"
  "view (preCleanupEffect e w) = view w"
  "view (postCleanupEffect e w) = view w"
  "view (pauseTracking w) = view w"
  "view (resetTracking w) = view w"
  "view (pauseScheduling w) = view w"
  "view (set_dirtyLevel e l w) = view w"
  by (simp_all add: view_quiet quiet_track quiet_trackRefValue quiet_preCleanupEffect
      quiet_postCleanupEffect)
    (simp_all add: view_def pauseTracking_def resetTracking_def pauseScheduling_def
      set_dirtyLevel_def upd_effect_def fun_eq_iff)

lemma view_fields [simp]:
  "view (w\<lparr>queueEffectSchedulers := q\<rparr>) = view w"
  "view (w\<lparr>pauseScheduleStack := p\<rparr>) = view w"
  "view (w\<lparr>scheduled := s\<rparr>) = view w"
  "view (w\<lparr>fn_calls := f\<rparr>) = view w"
  "view (w\<lparr>activeEffect := a\<rparr>) = view w"
  "view (w\<lparr>shouldTrack := b\<rparr>) = view w"
  by (simp_all add: view_def)

lemma inv_view: "computeds_inv b E K w \<Longrightarrow> view w' = view w \<Longrightarrow> computeds_inv b E K w'"
  using computeds_inv_view [of w' w b E K] by simp

lemma fn_view: "fn_inv b E K e r w \<Longrightarrow> view w' = view w \<Longrightarrow> fn_inv b E K e r w'"
  using fn_inv_view [of w' w b E K e r] by simp

lemma ok_triggerRefValue:
  assumes "sound b E K rec" "computeds_inv b E K w" "triggerRefValue rec c l w = Some w'"
  shows "computeds_inv b E K w'"
proof (cases "c_dep (computeds w c)")
  case None
  then show ?thesis
    using assms(2,3) by (simp add: triggerRefValue_def)
next
  case (Some d)
  then have "call_triggerEffects rec d l w = Some w'"
    using assms(3) by (simp add: triggerRefValue_def)
  from soundD(2) [OF assms(1,2) this] show ?thesis .
qed

lemma ok_effect_trigger:
  assumes "sound b E K rec" "computeds_inv b E K w" "effect_trigger rec e w = Some w'"
  shows "computeds_inv b E K w'"
proof (cases "computed (effects w e)")
  case None
  then show ?thesis
    using assms(2,3) by (simp add: effect_trigger_def)
next
  case (Some c)
  then obtain l where "triggerRefValue rec c l w = Some w'"
    using assms(3) by (simp add: effect_trigger_def)
  from ok_triggerRefValue [OF assms(1,2) this] show ?thesis .
qed

lemma ok_trigger_one:
  assumes "sound b E K rec" "computeds_inv b E K w" "trigger_one rec d l e w = Some w'"
  shows "computeds_inv b E K w'"
proof -
  define w1 where "w1 = (if level (dirtyLevel (effects w e)) < level l \<and>
                            dep_get w d e = Some (trackId (effects w e))
                then upd_effect e (\<lambda>ef. ef\<lparr>shouldSchedule := (shouldSchedule ef \<or> dirtyLevel ef = NotDirty),
                                           dirtyLevel := l\<rparr>) w
                else w)"
  define fin where "fin = (\<lambda>w2. if (runnings (effects w2 e) = 0 \<or> allowRecurse (effects w2 e)) \<and>
                         dirtyLevel (effects w2 e) \<noteq> MaybeDirty_ComputedSideEffect
                      then (let w3 = upd_effect e (\<lambda>ef. ef\<lparr>shouldSchedule := False\<rparr>) w2
                            in if scheduler (effects w3 e) \<noteq> None
                               then w3\<lparr>queueEffectSchedulers := queueEffectSchedulers w3 @ [e]\<rparr>
                               else w3)
                      else w2)"
  have eq: "trigger_one rec d l e w =
              (if shouldSchedule (effects w1 e) \<and> dep_get w d e = Some (trackId (effects w e))
               then (case effect_trigger rec e w1 of None \<Rightarrow> None | Some w2 \<Rightarrow> Some (fin w2))
               else Some w1)"
    unfolding trigger_one_def w1_def fin_def Let_def by (rule refl)
  have v1: "view w1 = view w"
    unfolding w1_def by (simp add: view_upd_effect)
  have ok1: "computeds_inv b E K w1"
    by (rule inv_view [OF assms(2) v1])
  have vf: "view (fin w2) = view w2" for w2
    unfolding fin_def by (simp add: Let_def view_upd_effect)
  show ?thesis
  proof (cases "shouldSchedule (effects w1 e) \<and> dep_get w d e = Some (trackId (effects w e))")
    case False
    then have "w' = w1"
      using assms(3) unfolding eq by (auto split: if_splits)
    then show ?thesis
      using ok1 by simp
  next
    case True
    then have "(case effect_trigger rec e w1 of None \<Rightarrow> None | Some w2 \<Rightarrow> Some (fin w2)) = Some w'"
      using assms(3) unfolding eq by simp
    then obtain w2 where w2: "effect_trigger rec e w1 = Some w2" and w': "w' = fin w2"
      by (cases "effect_trigger rec e w1") auto
    have ok2: "computeds_inv b E K w2"
      by (rule ok_effect_trigger [OF assms(1) ok1 w2])
    then show ?thesis
      unfolding w' by (rule inv_view) (rule vf)
  qed
qed

lemma ok_trigger_each:
  assumes "sound b E K rec"
  shows "computeds_inv b E K w \<Longrightarrow> trigger_each rec d l es w = Some w' \<Longrightarrow> computeds_inv b E K w'"
proof (induction es arbitrary: w)
  case Nil
  then show ?case by simp
next
  case (Cons e es)
  from Cons.prems(2) obtain w1 where 1: "trigger_one rec d l e w = Some w1"
    and 2: "trigger_each rec d l es w1 = Some w'"
    by (cases "trigger_one rec d l e w") auto
  from ok_trigger_one [OF assms Cons.prems(1) 1] have "computeds_inv b E K w1" .
  from Cons.IH [OF this 2] show ?case .
qed

lemma ok_resetScheduling_loop:
  assumes "sound b E K rec"
  shows "computeds_inv b E K w \<Longrightarrow> resetScheduling_loop rec n w = Some w' \<Longrightarrow> computeds_inv b E K w'"
proof (induction n arbitrary: w)
  case 0
  then show ?case by simp
next
  case (Suc n)
  show ?case
  proof (cases "pauseScheduleStack w = 0 \<and> queueEffectSchedulers w \<noteq> []")
    case False
    then have "w' = w"
      using Suc.prems(2) by auto
    then show ?thesis
      using Suc.prems(1) by simp
  next
    case True
    let ?w0 = "w\<lparr>queueEffectSchedulers := tl (queueEffectSchedulers w)\<rparr>"
    from True Suc.prems(2) obtain w1 where
      1: "call_scheduler rec (hd (queueEffectSchedulers w)) ?w0 = Some w1"
      and 2: "resetScheduling_loop rec n w1 = Some w'"
      by (cases "call_scheduler rec (hd (queueEffectSchedulers w)) ?w0") auto
    have "computeds_inv b E K ?w0"
      by (rule inv_view [OF Suc.prems(1)]) simp
    from soundD(3) [OF assms this 1] have "computeds_inv b E K w1" .
    from Suc.IH [OF this 2] show ?thesis .
  qed
qed

lemma ok_resetScheduling:
  assumes "sound b E K rec" "computeds_inv b E K w" "resetScheduling rec n w = Some w'"
  shows "computeds_inv b E K w'"
proof -
  have "computeds_inv b E K (w\<lparr>pauseScheduleStack := pauseScheduleStack w - 1\<rparr>)"
    by (rule inv_view [OF assms(2)]) simp
  from ok_resetScheduling_loop [OF assms(1) this] assms(3) show ?thesis
    by (simp add: resetScheduling_def)
qed

lemma ok_triggerEffects:
  assumes "sound b E K rec" "computeds_inv b E K w" "triggerEffects rec n d l w = Some w'"
  shows "computeds_inv b E K w'"
proof -
  from assms(3) obtain w1 where
    1: "trigger_each rec d l (map fst (entries (dep_store w d))) (pauseScheduling w) = Some w1"
    and 2: "resetScheduling rec n w1 = Some w'"
    unfolding triggerEffects_def
    by (cases "trigger_each rec d l (map fst (entries (dep_store w d))) (pauseScheduling w)") auto
  have "computeds_inv b E K (pauseScheduling w)"
    by (rule inv_view [OF assms(2)]) simp
  from ok_trigger_each [OF assms(1) this 1] have "computeds_inv b E K w1" .
  from ok_resetScheduling [OF assms(1) this 2] show ?thesis .
qed

lemma ok_trigger_deps:
  assumes "sound b E K rec"
  shows "computeds_inv b E K w \<Longrightarrow> trigger_deps rec n ds w = Some w' \<Longrightarrow> computeds_inv b E K w'"
proof (induction ds arbitrary: w)
  case Nil
  then show ?case by simp
next
  case (Cons d ds)
  show ?case
  proof (cases d)
    case None
    then have "trigger_deps rec n ds w = Some w'"
      using Cons.prems(2) by simp
    from Cons.IH [OF Cons.prems(1) this] show ?thesis .
  next
    case (Some d')
    from Cons.prems(2) Some obtain w1 where 1: "triggerEffects rec n d' Dirty w = Some w1"
      and 2: "trigger_deps rec n ds w1 = Some w'"
      by (cases "triggerEffects rec n d' Dirty w") auto
    from ok_triggerEffects [OF assms Cons.prems(1) 1] have "computeds_inv b E K w1" .
    from Cons.IH [OF this 2] show ?thesis .
  qed
qed

lemma ok_trigger:
  assumes "sound b E K rec" "computeds_inv b E K w" "trigger rec n t ty k w = Some w'"
  shows "computeds_inv b E K w'"
proof (cases "targetMap w t")
  case None
  then show ?thesis
    using assms(2,3) by (simp add: trigger_def)
next
  case (Some depsMap)
  define ds where "ds = (case k of None \<Rightarrow> [] | Some k' \<Rightarrow> [depsMap k']) @
                      (case ty of
                         ADD \<Rightarrow> [depsMap ITERATE_KEY]
                       | DELETE \<Rightarrow> [depsMap ITERATE_KEY]
                       | SET \<Rightarrow> [])"
  have eq: "trigger rec n t ty k w =
              (case trigger_deps rec n ds (pauseScheduling w) of
                 None \<Rightarrow> None
               | Some w' \<Rightarrow> resetScheduling rec n w')"
    using Some by (simp add: trigger_def Let_def ds_def)
  then obtain w1 where 1: "trigger_deps rec n ds (pauseScheduling w) = Some w1"
    and 2: "resetScheduling rec n w1 = Some w'"
    using assms(3) by (cases "trigger_deps rec n ds (pauseScheduling w)") auto
  have "computeds_inv b E K (pauseScheduling w)"
    by (rule inv_view [OF assms(2)]) simp
  from ok_trigger_deps [OF assms(1) this 1] have "computeds_inv b E K w1" .
  from ok_resetScheduling [OF assms(1) this 2] show ?thesis .
qed

lemma ok_dirty_loop:
  assumes "sound b E K rec"
  shows "computeds_inv b E K w \<Longrightarrow> dirty_loop rec e m i w = Some w' \<Longrightarrow> computeds_inv b E K w'"
proof (induction m arbitrary: i w)
  case 0
  then show ?case by simp
next
  case (Suc m)
  show ?case
  proof (cases "i < depsLength (effects w e)")
    case False
    then have "w' = w"
      using Suc.prems(2) by simp
    then show ?thesis
      using Suc.prems(1) by simp
  next
    case True
    note lt = this
    show ?thesis
    proof (cases "i < length (deps (effects w e))")
      case False
      then show ?thesis
        using lt Suc.prems(2) by simp
    next
      case True
      show ?thesis
      proof (cases "dep_computed (dep_store w (deps (effects w e) ! i))")
        case None
        then have "dirty_loop rec e m (i + 1) w = Some w'"
          using lt True Suc.prems(2) by simp
        from Suc.IH [OF Suc.prems(1) this] show ?thesis .
      next
        case (Some c)
        then have eq: "(case call_value rec c w of
                     None \<Rightarrow> None
                   | Some (v, w1) \<Rightarrow>
                       if level (dirtyLevel (effects w1 e)) \<ge> level Dirty then Some w1
                       else dirty_loop rec e m (i + 1) w1) = Some w'"
          using lt True Suc.prems(2) by simp
        then obtain v w1 where 1: "call_value rec c w = Some (v, w1)"
          by (cases "call_value rec c w") auto
        from soundD(1) [OF assms Suc.prems(1) 1] have ok1: "computeds_inv b E K w1" .
        show ?thesis
        proof (cases "level (dirtyLevel (effects w1 e)) \<ge> level Dirty")
          case True
          then have "w' = w1"
            using eq 1 by simp
          then show ?thesis
            using ok1 by simp
        next
          case False
          then have "dirty_loop rec e m (i + 1) w1 = Some w'"
            using eq 1 by simp
          from Suc.IH [OF ok1 this] show ?thesis .
        qed
      qed
    qed
  qed
qed

lemma ok_effect_dirty:
  assumes "sound b E K rec" "computeds_inv b E K w" "effect_dirty rec n e w = Some (d, w')"
  shows "computeds_inv b E K w'"
proof (cases "dirtyLevel (effects w e) = MaybeDirty_ComputedSideEffect \<or>
              dirtyLevel (effects w e) = MaybeDirty")
  case False
  then have "w' = w"
    using assms(3) by (simp add: effect_dirty_def)
  then show ?thesis
    using assms(2) by simp
next
  case True
  let ?w0 = "pauseTracking (set_dirtyLevel e QueryingDirty w)"
  from True assms(3) obtain w3 where 1: "dirty_loop rec e n 0 ?w0 = Some w3"
    and 2: "w' = resetTracking (if dirtyLevel (effects w3 e) = QueryingDirty
                                then set_dirtyLevel e NotDirty w3 else w3)"
    unfolding effect_dirty_def Let_def
    by (cases "dirty_loop rec e n 0 ?w0") auto
  have "computeds_inv b E K ?w0"
    by (rule inv_view [OF assms(2)]) simp
  from ok_dirty_loop [OF assms(1) this 1] have ok3: "computeds_inv b E K w3" .
  have "view w' = view w3"
    unfolding 2 by simp
  from inv_view [OF ok3 this] show ?thesis .
qed

lemma ok_exec_ops:
  assumes "sound b E K rec"
  shows "computeds_inv b E K w \<Longrightarrow> exec_ops rec n ops w = Some w' \<Longrightarrow> computeds_inv b E K w'"
proof (induction ops arbitrary: w)
  case Nil
  then show ?case by simp
next
  case (Cons a ops)
  show ?case
  proof (cases a)
    case (Get t k)
    have ok: "computeds_inv b E K (track t k w)"
      by (rule inv_view [OF Cons.prems(1)]) simp
    have "exec_ops rec n ops (track t k w) = Some w'"
      using Cons.prems(2) Get by simp
    from Cons.IH [OF ok this] show ?thesis .
  next
    case (Put t ty k)
    then obtain w1 where 1: "trigger rec n t ty (Some k) w = Some w1"
      and 2: "exec_ops rec n ops w1 = Some w'"
      using Cons.prems(2) by (cases "trigger rec n t ty (Some k) w") auto
    from ok_trigger [OF assms Cons.prems(1) 1] have "computeds_inv b E K w1" .
    from Cons.IH [OF this 2] show ?thesis .
  next
    case (GetValue c)
    then obtain v w1 where 1: "call_value rec c w = Some (v, w1)"
      and 2: "exec_ops rec n ops w1 = Some w'"
      using Cons.prems(2) by (cases "call_value rec c w") auto
    from soundD(1) [OF assms Cons.prems(1) 1] have "computeds_inv b E K w1" .
    from Cons.IH [OF this 2] show ?thesis .
  qed
qed

lemma fn_inv_set_result:
  assumes "computeds_inv b E K w"
  shows "fn_inv b E K e r (w\<lparr>fn_results := (fn_results w)(e := Some r)\<rparr>)"
  using assms by (simp add: computeds_inv_def fn_inv_def)

lemma ok_exec_fn:
  assumes "sound b E K rec" "computeds_inv b E K w" "exec_fn prog rec n e w = Some (r, w')"
  shows "fn_inv b E K e r w'"
proof -
  obtain ops r' where p: "prog e (fn_calls w e) = (ops, r')"
    by (cases "prog e (fn_calls w e)")
  let ?w0 = "w\<lparr>fn_calls := (fn_calls w)(e := fn_calls w e + 1)\<rparr>"
  from p assms(3) obtain w1 where 1: "exec_ops rec n ops ?w0 = Some w1"
    and 2: "w' = w1\<lparr>fn_results := (fn_results w1)(e := Some r)\<rparr>"
    unfolding exec_fn_def by (cases "exec_ops rec n ops ?w0") auto
  have "computeds_inv b E K ?w0"
    by (rule inv_view [OF assms(2)]) simp
  from ok_exec_ops [OF assms(1) this 1] have "computeds_inv b E K w1" .
  then show ?thesis
    unfolding 2 by (rule fn_inv_set_result)
qed

lemma ok_run:
  assumes fn: "\<And>w0 r w1. computeds_inv b E K w0 \<Longrightarrow> fn w0 = Some (r, w1) \<Longrightarrow> fn_inv b E K e r w1"
    and "computeds_inv b E K w" "run fn e w = Some (r, w')"
  shows "fn_inv b E K e r w'"
proof -
  let ?w0 = "upd_effect e (\<lambda>ef. ef\<lparr>dirtyLevel := NotDirty\<rparr>) w"
  have ok0: "computeds_inv b E K ?w0"
    by (rule inv_view [OF assms(2)]) (simp add: view_upd_effect)
  show ?thesis
  proof (cases "active (effects w e)")
    case False
    then have "fn ?w0 = Some (r, w')"
      using assms(3) by (simp add: run_def Let_def)
    from fn [OF ok0 this] show ?thesis .
  next
    case True
    let ?w3 = "preCleanupEffect e (upd_effect e (\<lambda>ef. ef\<lparr>runnings := runnings ef + 1\<rparr>)
                 (?w0\<lparr>shouldTrack := True, activeEffect := Some e\<rparr>))"
    have ok3: "computeds_inv b E K ?w3"
      by (rule inv_view [OF assms(2)]) (simp add: view_upd_effect)
    have eq: "run fn e w =
                (case fn ?w3 of
                   None \<Rightarrow> None
                 | Some (r, w4) \<Rightarrow>
                     Some (r, (upd_effect e (\<lambda>ef. ef\<lparr>runnings := runnings ef - 1\<rparr>) (postCleanupEffect e w4))
                                \<lparr>activeEffect := activeEffect ?w0, shouldTrack := shouldTrack ?w0\<rparr>))"
      using True unfolding run_def Let_def by simp
    from assms(3) obtain w4 where 1: "fn ?w3 = Some (r, w4)"
      and 2: "w' = (upd_effect e (\<lambda>ef. ef\<lparr>runnings := runnings ef - 1\<rparr>) (postCleanupEffect e w4))
                 \<lparr>activeEffect := activeEffect ?w0, shouldTrack := shouldTrack ?w0\<rparr>"
      unfolding eq by (cases "fn ?w3") auto
    from fn [OF ok3 1] have f4: "fn_inv b E K e r w4" .
    have "view w' = view w4"
      unfolding 2 by (simp add: view_upd_effect)
    from fn_view [OF f4 this] show ?thesis .
  qed
qed

lemma computed_value_result:
  assumes "computed_value rec n c w = Some (v, w')"
  shows "v = c_value (computeds w' c)"
proof -
  define A where "A = (if \<not> c_cacheable (computeds w c) then Some (True, w)
                       else effect_dirty rec n (c_effect (computeds w c)) w)"
  define B where "B = (\<lambda>dirty w1. if dirty then
                      (case run (call_fn rec (c_effect (computeds w c))) (c_effect (computeds w c)) w1 of
                         None \<Rightarrow> None
                       | Some (r, w2) \<Rightarrow>
                           (if hasChanged (c_value (computeds w1 c)) (Some r)
                            then triggerRefValue rec c Dirty
                                   (w2\<lparr>computeds := (computeds w2)(c := (computeds w2 c)\<lparr>c_value := Some r\<rparr>)\<rparr>)
                            else Some (w2\<lparr>computeds := (computeds w2)(c := (computeds w2 c)\<lparr>c_value := Some r\<rparr>)\<rparr>)))
                    else Some w1)"
  define C where "C = (\<lambda>w4. if level (dirtyLevel (effects (trackRefValue c w4) (c_effect (computeds w c))))
                                 \<ge> level MaybeDirty_ComputedSideEffect
                            then triggerRefValue rec c MaybeDirty_ComputedSideEffect (trackRefValue c w4)
                            else Some (trackRefValue c w4))"
  have eq: "computed_value rec n c w =
              (case A of
                 None \<Rightarrow> None
               | Some (dirty, w1) \<Rightarrow>
                   (case B dirty w1 of
                      None \<Rightarrow> None
                    | Some w4 \<Rightarrow>
                        (case C w4 of
                           None \<Rightarrow> None
                         | Some w6 \<Rightarrow> Some (c_value (computeds w6 c), w6))))"
    unfolding computed_value_def Let_def A_def B_def C_def by (rule refl)
  from assms obtain dirty w1 where 1: "A = Some (dirty, w1)"
    unfolding eq by (cases A) auto
  have a1: "(case B dirty w1 of
               None \<Rightarrow> None
             | Some w4 \<Rightarrow>
                 (case C w4 of
                    None \<Rightarrow> None
                  | Some w6 \<Rightarrow> Some (c_value (computeds w6 c), w6))) = Some (v, w')"
    using assms unfolding eq 1 by simp
  then obtain w4 where 2: "B dirty w1 = Some w4"
    by (cases "B dirty w1") auto
  have a2: "(case C w4 of
               None \<Rightarrow> None
             | Some w6 \<Rightarrow> Some (c_value (computeds w6 c), w6)) = Some (v, w')"
    using a1 unfolding 2 by simp
  then show ?thesis
    by (cases "C w4") auto
qed

lemma ok_computed_value:
  assumes "sound b E K rec" "computeds_inv b E K w" "computed_value rec n c w = Some (v, w')"
  shows "computeds_inv b E K w'"
proof -
  define A where "A = (if \<not> c_cacheable (computeds w c) then Some (True, w)
                       else effect_dirty rec n (c_effect (computeds w c)) w)"
  define B where "B = (\<lambda>dirty w1. if dirty then
                      (case run (call_fn rec (c_effect (computeds w c))) (c_effect (computeds w c)) w1 of
                         None \<Rightarrow> None
                       | Some (r, w2) \<Rightarrow>
                           (if hasChanged (c_value (computeds w1 c)) (Some r)
                            then triggerRefValue rec c Dirty
                                   (w2\<lparr>computeds := (computeds w2)(c := (computeds w2 c)\<lparr>c_value := Some r\<rparr>)\<rparr>)
                            else Some (w2\<lparr>computeds := (computeds w2)(c := (computeds w2 c)\<lparr>c_value := Some r\<rparr>)\<rparr>)))
                    else Some w1)"
  define C where "C = (\<lambda>w4. if level (dirtyLevel (effects (trackRefValue c w4) (c_effect (computeds w c))))
                                 \<ge> level MaybeDirty_ComputedSideEffect
                            then triggerRefValue rec c MaybeDirty_ComputedSideEffect (trackRefValue c w4)
                            else Some (trackRefValue c w4))"
  have eq: "computed_value rec n c w =
              (case A of
                 None \<Rightarrow> None
               | Some (dirty, w1) \<Rightarrow>
                   (case B dirty w1 of
                      None \<Rightarrow> None
                    | Some w4 \<Rightarrow>
                        (case C w4 of
                           None \<Rightarrow> None
                         | Some w6 \<Rightarrow> Some (c_value (computeds w6 c), w6))))"
    unfolding computed_value_def Let_def A_def B_def C_def by (rule refl)
  from assms(3) obtain dirty w1 where 1: "A = Some (dirty, w1)"
    unfolding eq by (cases A) auto
  have a1: "(case B dirty w1 of
               None \<Rightarrow> None
             | Some w4 \<Rightarrow>
                 (case C w4 of
                    None \<Rightarrow> None
                  | Some w6 \<Rightarrow> Some (c_value (computeds w6 c), w6))) = Some (v, w')"
    using assms(3) unfolding eq 1 by simp
  then obtain w4 where 2: "B dirty w1 = Some w4"
    by (cases "B dirty w1") auto
  have a2: "(case C w4 of
               None \<Rightarrow> None
             | Some w6 \<Rightarrow> Some (c_value (computeds w6 c), w6)) = Some (v, w')"
    using a1 unfolding 2 by simp
  then have 3: "C w4 = Some w'"
    by (cases "C w4") auto
  have e: "c_effect (computeds w c) = E c"
    using assms(2) by (simp add: computeds_inv_def)
  have ok1: "computeds_inv b E K w1"
  proof (cases "c_cacheable (computeds w c)")
    case False
    then have "w1 = w"
      using 1 by (simp add: A_def)
    then show ?thesis
      using assms(2) by simp
  next
    case True
    then have "effect_dirty rec n (c_effect (computeds w c)) w = Some (dirty, w1)"
      using 1 by (simp add: A_def)
    from ok_effect_dirty [OF assms(1,2) this] show ?thesis .
  qed
  have ok4: "computeds_inv b E K w4"
  proof (cases dirty)
    case False
    then have "w4 = w1"
      using 2 by (simp add: B_def)
    then show ?thesis
      using ok1 by simp
  next
    case True
    then obtain r w2 where r: "run (call_fn rec (E c)) (E c) w1 = Some (r, w2)"
      using 2 unfolding B_def e by (cases "run (call_fn rec (E c)) (E c) w1") auto
    let ?w3 = "w2\<lparr>computeds := (computeds w2)(c := (computeds w2 c)\<lparr>c_value := Some r\<rparr>)\<rparr>"
    have t: "(if hasChanged (c_value (computeds w1 c)) (Some r)
              then triggerRefValue rec c Dirty ?w3 else Some ?w3) = Some w4"
      using 2 True r unfolding B_def e by simp
    have f: "fn_inv b E K (E c) r w2"
      by (rule ok_run [OF soundD(4) [OF assms(1)] ok1 r])
    have ok3: "computeds_inv b E K ?w3"
      using f unfolding fn_inv_def computeds_inv_def by (auto dest: injD)
    show ?thesis
    proof (cases "hasChanged (c_value (computeds w1 c)) (Some r)")
      case False
      then have "w4 = ?w3"
        using t by simp
      then show ?thesis
        using ok3 by simp
    next
      case True
      then have "triggerRefValue rec c Dirty ?w3 = Some w4"
        using t by simp
      from ok_triggerRefValue [OF assms(1) ok3 this] show ?thesis .
    qed
  qed
  have ok5: "computeds_inv b E K (trackRefValue c w4)"
    by (rule inv_view [OF ok4]) simp
  show ?thesis
  proof (cases "level (dirtyLevel (effects (trackRefValue c w4) (c_effect (computeds w c))))
                  \<ge> level MaybeDirty_ComputedSideEffect")
    case False
    then have "w' = trackRefValue c w4"
      using 3 by (simp add: C_def)
    then show ?thesis
      using ok5 by simp
  next
    case True
    then have "triggerRefValue rec c MaybeDirty_ComputedSideEffect (trackRefValue c w4) = Some w'"
      using 3 by (simp add: C_def)
    from ok_triggerRefValue [OF assms(1) ok5 this] show ?thesis .
  qed
qed

lemma ok_run_scheduler:
  assumes "sound b E K rec" "computeds_inv b E K w" "run_scheduler rec n e w = Some w'"
  shows "computeds_inv b E K w'"
proof (cases "scheduler (effects w e)")
  case None
  then have "w' = w"
    using assms(3) by (simp add: run_scheduler_def)
  then show ?thesis
    using assms(2) by simp
next
  case (Some sch)
  show ?thesis
  proof (cases sch)
    case External
    then have "w' = w\<lparr>scheduled := scheduled w @ [e]\<rparr>"
      using Some assms(3) by (simp add: run_scheduler_def)
    then show ?thesis
      using inv_view [OF assms(2), of "w\<lparr>scheduled := scheduled w @ [e]\<rparr>"] by simp
  next
    case RunIfDirty
    then have eq: "(case effect_dirty rec n e w of
             None \<Rightarrow> None
           | Some (dirty, w1) \<Rightarrow>
               if dirty then map_option snd (run (call_fn rec e) e w1) else Some w1) = Some w'"
      using Some assms(3) by (simp add: run_scheduler_def)
    then obtain dirty w1 where 1: "effect_dirty rec n e w = Some (dirty, w1)"
      by (cases "effect_dirty rec n e w") auto
    from ok_effect_dirty [OF assms(1,2) 1] have ok1: "computeds_inv b E K w1" .
    show ?thesis
    proof (cases dirty)
      case False
      then have "w' = w1"
        using eq 1 by simp
      then show ?thesis
        using ok1 by simp
    next
      case True
      then obtain r where r: "run (call_fn rec e) e w1 = Some (r, w')"
        using eq 1 by (cases "run (call_fn rec e) e w1") auto
      have f: "fn_inv b E K e r w'"
        by (rule ok_run [OF soundD(4) [OF assms(1)] ok1 r])
      have ne: "b \<Longrightarrow> E c \<noteq> e" for c
        using assms(2) Some by (auto simp: computeds_inv_def)
      show ?thesis
        using f ne unfolding fn_inv_def computeds_inv_def by auto
    qed
  qed
qed

lemma sound_interp: "sound b E K (interp prog n)"
proof (induction n)
  case 0
  show ?case
    by (simp add: sound_def)
next
  case (Suc n)
  show ?case
    unfolding sound_def interp.simps calls.simps
    using ok_computed_value [OF Suc] ok_triggerEffects [OF Suc] ok_run_scheduler [OF Suc]
      ok_exec_fn [OF Suc]
    by blast
qed

subsection \<open>Two consecutive reads\<close>

lemma computeds_ok_inv:
  "computeds_ok w \<Longrightarrow>
     computeds_inv True (\<lambda>c. c_effect (computeds w c)) (\<lambda>c. c_cacheable (computeds w c)) w"
  by (simp add: computeds_ok_def computeds_inv_def)

lemma computeds_inv_ok: "computeds_inv True E K w \<Longrightarrow> computeds_ok w"
proof -
  assume i: "computeds_inv True E K w"
  then have "(\<lambda>c. c_effect (computeds w c)) = E"
    by (simp add: computeds_inv_def fun_eq_iff)
  then show ?thesis
    using i by (simp add: computeds_ok_def computeds_inv_def)
qed

lemma read_value_Suc:
  assumes "read_value prog n c w = Some (v, w1)"
  shows "\<exists>n'. n = Suc n' \<and> computed_value (interp prog n') (Suc n') c w = Some (v, w1)"
  using assms by (cases n) (simp_all add: read_value_def)

lemma read_value_keeps_refs:
  assumes "read_value prog n c w = Some (v, w1)"
  shows "c_effect (computeds w1 c') = c_effect (computeds w c') \<and>
         c_cacheable (computeds w1 c') = c_cacheable (computeds w c')"
proof -
  from read_value_Suc [OF assms] obtain n' where
    cv: "computed_value (interp prog n') (Suc n') c w = Some (v, w1)"
    by blast
  let ?E = "\<lambda>c. c_effect (computeds w c)"
  let ?K = "\<lambda>c. c_cacheable (computeds w c)"
  have "computeds_inv False ?E ?K w"
    by (simp add: computeds_inv_def)
  from ok_computed_value [OF sound_interp this cv] show ?thesis
    by (simp add: computeds_inv_def)
qed

lemma computeds_ok_read_value:
  assumes "computeds_ok w" "read_value prog n c w = Some (v, w1)"
  shows "computeds_ok w1"
proof -
  from read_value_Suc [OF assms(2)] obtain n' where
    cv: "computed_value (interp prog n') (Suc n') c w = Some (v, w1)"
    by blast
  from ok_computed_value [OF sound_interp computeds_ok_inv [OF assms(1)] cv]
  show ?thesis
    by (rule computeds_inv_ok)
qed

lemma computeds_ok_write_property:
  assumes "computeds_ok w" "write_property prog n t ty k w = Some w'"
  shows "computeds_ok w'"
proof -
  have "trigger (interp prog n) (Suc n) t ty (Some k) w = Some w'"
    using assms(2) by (simp add: write_property_def)
  from ok_trigger [OF sound_interp computeds_ok_inv [OF assms(1)] this]
  show ?thesis
    by (rule computeds_inv_ok)
qed

lemma computeds_ok_run_effect:
  assumes "computeds_ok w" "\<forall>c. c_effect (computeds w c) \<noteq> e"
    "run_effect prog n e w = Some (r, w')"
  shows "computeds_ok w'"
proof -
  let ?E = "\<lambda>c. c_effect (computeds w c)"
  let ?K = "\<lambda>c. c_cacheable (computeds w c)"
  have r: "run (call_fn (interp prog n) e) e w = Some (r, w')"
    using assms(3) by (simp add: run_effect_def)
  have "fn_inv True ?E ?K e r w'"
    by (rule ok_run [OF soundD(4) [OF sound_interp] computeds_ok_inv [OF assms(1)] r])
  then have "computeds_inv True ?E ?K w'"
    using assms(2) by (simp add: fn_inv_def computeds_inv_def)
  then show ?thesis
    by (rule computeds_inv_ok)
qed

lemma second_read_cached:
  assumes "c_cacheable (computeds w c)"
    and "read_value prog n c w = Some (v, w1)"
    and "level (dirtyLevel (effects w1 (c_effect (computeds w c)))) < level MaybeDirty_ComputedSideEffect"
  shows "\<exists>w2. read_value prog (Suc m) c w1 = Some (v, w2) \<and> quiet w1 w2 \<and>
           c_value (computeds w1 c) = v"
proof -
  from read_value_Suc [OF assms(2)] obtain n' where
    cv: "computed_value (interp prog n') (Suc n') c w = Some (v, w1)"
    by blast
  have v: "v = c_value (computeds w1 c)"
    by (rule computed_value_result [OF cv])
  have k: "c_effect (computeds w1 c) = c_effect (computeds w c)"
    "c_cacheable (computeds w1 c)"
    using read_value_keeps_refs [OF assms(2), of c] assms(1) by simp_all
  have l: "level (dirtyLevel (effects w1 (c_effect (computeds w1 c)))) < level MaybeDirty_ComputedSideEffect"
    using assms(3) by (simp only: k(1))
  have "computed_value (interp prog m) (Suc m) c w1 =
          Some (c_value (computeds w1 c), trackRefValue c w1)"
    by (rule computed_value_clean [OF k(2) l])
  then have "read_value prog (Suc m) c w1 = Some (v, trackRefValue c w1)"
    by (simp add: read_value_def v)
  then show ?thesis
    using quiet_trackRefValue [of w1 c] v by blast
qed

text \<open>
  Claim C4, computed caching. For every cacheable computed ref: when a read of
  \<^verbatim>\<open>.value\<close> returns and leaves the level of the effect at \<open>NotDirty\<close> or \<open>QueryingDirty\<close>
  (below \<open>MaybeDirty_ComputedSideEffect\<close>), the next read, with nothing in between and
  with any fuel, returns the cached \<^verbatim>\<open>_value\<close>, which is the value the first read returned,
  and calls no getter at all: the counters of calls and the last results are those
  after the first read. So the two reads call the getter as often as the first read
  alone. And the cached \<^verbatim>\<open>_value\<close> of every computed ref is the last result of its
  getter, at any level of the effect: this holds in every state reached from one where
  it holds (\<open>computeds_ok\<close>) by reads of computed refs, writes of properties and runs of
  effects that are not the effect of a computed ref.
\<close>

theorem computed_caching:
  "(c_cacheable (computeds w c) \<and> read_value prog n c w = Some (v, w1) \<and>
    level (dirtyLevel (effects w1 (c_effect (computeds w c)))) < level MaybeDirty_ComputedSideEffect \<longrightarrow>
      (\<exists>w2. read_value prog (Suc m) c w1 = Some (v, w2) \<and> c_value (computeds w1 c) = v \<and>
            fn_calls w2 = fn_calls w1 \<and> fn_results w2 = fn_results w1 \<and>
            c_value (computeds w2 c) = v)) \<and>
   (computeds_ok w \<longrightarrow>
      (\<forall>c. c_value (computeds w c) = fn_results w (c_effect (computeds w c)))) \<and>
   (computeds_ok w \<and> read_value prog n c w = Some (v, w1) \<longrightarrow> computeds_ok w1) \<and>
   (computeds_ok w \<and> write_property prog n t ty k w = Some w' \<longrightarrow> computeds_ok w') \<and>
   (computeds_ok w \<and> (\<forall>c. c_effect (computeds w c) \<noteq> e) \<and>
    run_effect prog n e w = Some (r, w'') \<longrightarrow> computeds_ok w'')"
proof (intro conjI impI)
  assume a: "c_cacheable (computeds w c) \<and> read_value prog n c w = Some (v, w1) \<and>
    level (dirtyLevel (effects w1 (c_effect (computeds w c)))) < level MaybeDirty_ComputedSideEffect"
  then obtain w2 where w2: "read_value prog (Suc m) c w1 = Some (v, w2)" "quiet w1 w2"
    "c_value (computeds w1 c) = v"
    using second_read_cached [of w c prog n v w1 m] by blast
  from w2(2) have "fn_calls w2 = fn_calls w1" "fn_results w2 = fn_results w1"
    "c_value (computeds w2 c) = c_value (computeds w1 c)"
    by (simp_all add: quiet_def)
  with w2 show "\<exists>w2. read_value prog (Suc m) c w1 = Some (v, w2) \<and> c_value (computeds w1 c) = v \<and>
            fn_calls w2 = fn_calls w1 \<and> fn_results w2 = fn_results w1 \<and>
            c_value (computeds w2 c) = v"
    by auto
next
  assume "computeds_ok w"
  then show "\<forall>c. c_value (computeds w c) = fn_results w (c_effect (computeds w c))"
    by (simp add: computeds_ok_def)
next
  assume "computeds_ok w \<and> read_value prog n c w = Some (v, w1)"
  then show "computeds_ok w1"
    using computeds_ok_read_value by blast
next
  assume "computeds_ok w \<and> write_property prog n t ty k w = Some w'"
  then show "computeds_ok w'"
    using computeds_ok_write_property by blast
next
  assume "computeds_ok w \<and> (\<forall>c. c_effect (computeds w c) \<noteq> e) \<and>
    run_effect prog n e w = Some (r, w'')"
  then show "computeds_ok w''"
    using computeds_ok_run_effect by blast
qed

text \<open>
  The theorem at the computed ref \<open>0\<close> of \<open>comp_world\<close>, whose getter reads two
  properties and returns \<open>7\<close>: the first read calls the getter once, the second read
  calls nothing, and the invariant holds before and after.
\<close>

theorem computed_caching_witness:
  "computeds_ok comp_world \<and>
   (\<exists>w1 w2. read_value reads_prog 2 0 comp_world = Some (Some 7, w1) \<and>
      read_value reads_prog 1 0 w1 = Some (Some 7, w2) \<and>
      fn_calls w1 0 = 1 \<and> fn_calls w2 0 = 1 \<and>
      computeds_ok w1 \<and> c_value (computeds w1 0) = fn_results w1 0)"
proof -
  have e: "c_effect (computeds comp_world 0) = 0"
    by (simp add: comp_world_def world0_def)
  have 1: "c_cacheable (computeds comp_world 0)"
    by (simp add: comp_world_def world0_def)
  have 2: "dirtyLevel (effects comp_world (c_effect (computeds comp_world 0))) = Dirty"
    by (simp add: comp_world_def world0_def effect0_def)
  have 3: "c_dep (computeds comp_world 0) = None \<or> c_value (computeds comp_world 0) = Some 7"
    by (simp add: comp_world_def world0_def)
  have 4: "reads_prog (c_effect (computeds comp_world 0)) (fn_calls comp_world (c_effect (computeds comp_world 0))) =
             (map (\<lambda>(t, k). Get t k) [(0, Key 0), (0, Key 1)], 7)"
    by (simp add: reads_prog_def)
  have f: "fn_calls comp_world 0 = 0"
    by (simp add: comp_world_def world0_def)
  have ok: "computeds_ok comp_world"
    by (simp add: computeds_ok_def comp_world_def world0_def effect0_def inj_on_def)
  from two_reads_of_reading_getter [where w = comp_world and c = 0 and r = 7 and prog = reads_prog
      and rs = "[(0, Key 0), (0, Key 1)]" and n = 0 and m = 0, OF 1 2 3 4]
  obtain w1 where first: "read_value reads_prog (Suc (Suc 0)) 0 comp_world = Some (Some 7, w1)"
    and calls: "fn_calls w1 = (fn_calls comp_world)(0 := Suc (fn_calls comp_world 0))"
    and lvl: "dirtyLevel (effects w1 0) = NotDirty"
    unfolding e by blast
  have l: "level (dirtyLevel (effects w1 (c_effect (computeds comp_world 0)))) < level MaybeDirty_ComputedSideEffect"
    by (simp add: e lvl)
  note th = computed_caching [where w = comp_world and c = 0 and prog = reads_prog
      and n = "Suc (Suc 0)" and v = "Some 7" and ?w1.0 = w1 and m = 0]
  from th 1 first l obtain w2 where second: "read_value reads_prog (Suc 0) 0 w1 = Some (Some 7, w2)"
    and same: "fn_calls w2 = fn_calls w1"
    by blast
  from th ok first have ok1: "computeds_ok w1"
    by blast
  from th ok1 have v1: "c_value (computeds w1 0) = fn_results w1 (c_effect (computeds w1 0))"
    using computeds_ok_def by blast
  have e1: "c_effect (computeds w1 0) = 0"
    using read_value_keeps_refs [OF first, of 0] e by simp
  from first second calls same f ok ok1 v1 e1 show ?thesis
    by (auto simp: numeral_2_eq_2)
qed

lemmas comp_eval_defs =
  read_value_def computed_value_def effect_dirty_def exec_fn_def trigger_def
  triggerEffects_def trigger_one_def effect_trigger_def triggerRefValue_def trackRefValue_def
  pauseScheduling_def resetScheduling_def hasChanged_def comp_world_def
  run_def track_def trackEffect_def Let_def world0_def effect0_def
  createDep_def preCleanupEffect_def postCleanupEffect_def upd_effect_def dep_get_def
  dep_set_def upd_dep_def array_put_def cleanupDepEffect_def dep_delete_def dep_size_def
  dep_cleanup_def pauseTracking_def resetTracking_def set_dirtyLevel_def run_scheduler_def

text \<open>
  A getter that reads a property and writes it: the write finds the running effect in
  the dep of the property and sets its level to \<open>Dirty\<close>, where it stays after the run.
\<close>

lemma self_mutation_reads:
  "(case read_value self_prog 3 0 comp_world of
      None \<Rightarrow> False
    | Some (v1, w1) \<Rightarrow>
        fn_calls w1 0 = 1 \<and> v1 = Some 0 \<and> dirtyLevel (effects w1 0) = Dirty \<and>
        (case read_value self_prog 3 0 w1 of
           None \<Rightarrow> False
         | Some (v2, w2) \<Rightarrow> fn_calls w2 0 = 2 \<and> v2 = Some 1))"
  by (simp add: comp_eval_defs self_prog_def eval_nat_numeral)

text \<open>
  A getter that only reads a computed ref whose getter writes what it reads: the read
  leaves the level at \<open>MaybeDirty_ComputedSideEffect\<close>.
\<close>

lemma downstream_reads:
  "(case read_value down_prog 4 1 comp_world of
      None \<Rightarrow> False
    | Some (v1, w1) \<Rightarrow>
        fn_calls w1 1 = 1 \<and> v1 = Some 10 \<and>
        dirtyLevel (effects w1 1) = MaybeDirty_ComputedSideEffect \<and>
        (case read_value down_prog 5 1 w1 of
           None \<Rightarrow> False
         | Some (v2, w2) \<Rightarrow> fn_calls w2 1 = 2 \<and> v2 = Some 11))"
  by (simp add: comp_eval_defs down_prog_def eval_nat_numeral)

text \<open>
  A getter that writes the property that a computed ref it reads depends on: the read
  leaves the level at \<open>MaybeDirty\<close>.
\<close>

lemma upstream_reads:
  "(case read_value up_prog 4 1 comp_world of
      None \<Rightarrow> False
    | Some (v1, w1) \<Rightarrow>
        fn_calls w1 1 = 1 \<and> v1 = Some 10 \<and>
        dirtyLevel (effects w1 1) = MaybeDirty \<and>
        (case read_value up_prog 5 1 w1 of
           None \<Rightarrow> False
         | Some (v2, w2) \<Rightarrow> fn_calls w2 1 = 2 \<and> v2 = Some 11))"
  by (simp add: comp_eval_defs up_prog_def eval_nat_numeral)

text \<open>Three consecutive reads of a computed ref whose getter only reads.\<close>

lemma three_reads:
  "(case read_value reads_prog 2 0 comp_world of
      None \<Rightarrow> False
    | Some (v1, w1) \<Rightarrow>
        fn_calls w1 0 = 1 \<and>
        (case read_value reads_prog 2 0 w1 of
           None \<Rightarrow> False
         | Some (v2, w2) \<Rightarrow> fn_calls w2 0 = 1 \<and>
             (case read_value reads_prog 2 0 w2 of
                None \<Rightarrow> False
              | Some (v3, w3) \<Rightarrow> fn_calls w3 0 = 1)))"
  by (simp add: comp_eval_defs reads_prog_def eval_nat_numeral)

text \<open>
  The claim as stated fails. Two consecutive reads, with nothing in between, call the
  getter twice and return two values when the first read leaves the effect \<open>Dirty\<close>
  (the getter writes a property it has read), \<open>MaybeDirty_ComputedSideEffect\<close> (the
  getter reads such a computed ref) or \<open>MaybeDirty\<close> (the getter writes a property that
  a computed ref it reads depends on). And the second and the third of three
  consecutive reads of a computed ref are two consecutive reads that do not call the
  getter at all: once is the count of the first read, not of every two reads.
\<close>

theorem computed_self_mutation_counterexample:
  "c_cacheable (computeds comp_world 0) \<and> c_cacheable (computeds comp_world 1) \<and>
   (case read_value self_prog 3 0 comp_world of
      None \<Rightarrow> False
    | Some (v1, w1) \<Rightarrow>
        fn_calls w1 0 = 1 \<and> v1 = Some 0 \<and> dirtyLevel (effects w1 0) = Dirty \<and>
        (case read_value self_prog 3 0 w1 of
           None \<Rightarrow> False
         | Some (v2, w2) \<Rightarrow> fn_calls w2 0 = 2 \<and> v2 = Some 1)) \<and>
   (case read_value down_prog 4 1 comp_world of
      None \<Rightarrow> False
    | Some (v1, w1) \<Rightarrow>
        fn_calls w1 1 = 1 \<and> v1 = Some 10 \<and>
        dirtyLevel (effects w1 1) = MaybeDirty_ComputedSideEffect \<and>
        (case read_value down_prog 5 1 w1 of
           None \<Rightarrow> False
         | Some (v2, w2) \<Rightarrow> fn_calls w2 1 = 2 \<and> v2 = Some 11)) \<and>
   (case read_value up_prog 4 1 comp_world of
      None \<Rightarrow> False
    | Some (v1, w1) \<Rightarrow>
        fn_calls w1 1 = 1 \<and> v1 = Some 10 \<and>
        dirtyLevel (effects w1 1) = MaybeDirty \<and>
        (case read_value up_prog 5 1 w1 of
           None \<Rightarrow> False
         | Some (v2, w2) \<Rightarrow> fn_calls w2 1 = 2 \<and> v2 = Some 11)) \<and>
   (case read_value reads_prog 2 0 comp_world of
      None \<Rightarrow> False
    | Some (v1, w1) \<Rightarrow>
        fn_calls w1 0 = 1 \<and>
        (case read_value reads_prog 2 0 w1 of
           None \<Rightarrow> False
         | Some (v2, w2) \<Rightarrow> fn_calls w2 0 = 1 \<and>
             (case read_value reads_prog 2 0 w2 of
                None \<Rightarrow> False
              | Some (v3, w3) \<Rightarrow> fn_calls w3 0 = 1)))"
proof -
  have "c_cacheable (computeds comp_world 0)" "c_cacheable (computeds comp_world 1)"
    by (simp_all add: comp_world_def world0_def)
  with self_mutation_reads downstream_reads upstream_reads three_reads show ?thesis
    by (intro conjI)
qed

end
